theory Spec2Isabelle
  imports Main "HOL-Library.Signed_Division"
begin

section \<open>Errors\<close>

text \<open>
  The library raises nothing; what the model records as an error is undefined behaviour
  of the C++ source: \<open>std::lldiv\<close> by zero inside the signed jump of the cartesian
  product, and dereferencing a wrapped iterator that stands at (or past) the end of its
  sequence.
\<close>

datatype error = DivisionByZero | PastTheEnd

section \<open>CartesianProductIterator (detail/iterators/CartesianProductIterator.hpp)\<close>

text \<open>
  The class keeps three tuples of wrapped iterators, \<open>_begin\<close>, \<open>_iterator\<close> and
  \<open>_end\<close>. A wrapped iterator is modelled by its position, an integer (the index into
  its sequence); the tuples are lists of the same length \<open>N = sizeof...(Iterators)\<close>,
  dimension 0 first. The names \<open>begin\<close>, \<open>end\<close> and \<open>next\<close> are keywords of Isabelle,
  so the fields carry the prefix \<open>c_\<close> and \<open>next<I>\<close> is \<open>next_I\<close>.
\<close>

record CartesianProductIterator =
  c_begin :: "int list"
  c_iterator :: "int list"
  c_end :: "int list"

text \<open>The constructor stores its three arguments; it reads no element.\<close>

definition CartesianProductIterator_ctor ::
  "int list \<Rightarrow> int list \<Rightarrow> int list \<Rightarrow> CartesianProductIterator" where
  "CartesianProductIterator_ctor iterator begin_t end_t =
     \<lparr>c_begin = begin_t, c_iterator = iterator, c_end = end_t\<rparr>"

text \<open>
  Writing dimension \<open>I\<close> of \<open>_iterator\<close>: \<open>std::get<I>(_iterator) = v\<close>, and
  \<open>++std::get<I>(_iterator)\<close>.
\<close>

definition set_dim :: "nat \<Rightarrow> int \<Rightarrow> CartesianProductIterator \<Rightarrow> CartesianProductIterator" where
  "set_dim i v c = c\<lparr>c_iterator := (c_iterator c)[i := v]\<rparr>"

definition incr_dim :: "nat \<Rightarrow> CartesianProductIterator \<Rightarrow> CartesianProductIterator" where
  "incr_dim i c = set_dim i (c_iterator c ! i + 1) c"

text \<open>
  \<open>next<I>\<close>: for \<open>I = 0\<close> nothing; otherwise advance dimension \<open>I - 1\<close>; when it
  reaches its end and \<open>I \<noteq> 1\<close>, reset it to its begin and carry into \<open>next<I - 1>\<close>.
\<close>

fun next_I :: "nat \<Rightarrow> CartesianProductIterator \<Rightarrow> CartesianProductIterator" where
  "next_I 0 c = c"
| "next_I (Suc i) c =
     (if c_iterator (incr_dim i c) ! i = c_end c ! i
      then (if Suc i \<noteq> 1
            then next_I i (set_dim i (c_begin c ! i) (incr_dim i c))
            else incr_dim i c)
      else incr_dim i c)"

text \<open>\<open>checkEnd\<close>: when dimension 0 stands at its end, the whole tuple becomes \<open>_end\<close>.\<close>

definition checkEnd :: "CartesianProductIterator \<Rightarrow> CartesianProductIterator" where
  "checkEnd c =
     (if c_iterator c ! 0 = c_end c ! 0 then c\<lparr>c_iterator := c_end c\<rparr> else c)"

definition increment :: "CartesianProductIterator \<Rightarrow> CartesianProductIterator" where
  "increment c = checkEnd (next_I (length (c_iterator c)) c)"

text \<open>
  \<open>operatorPlusImpl<I>\<close>. \<open>std::lldiv\<close> truncates towards zero (\<open>sdiv\<close>, \<open>smod\<close>);
  a zero divisor is undefined behaviour and is the error \<open>DivisionByZero\<close>. The offset
  is an unbounded integer: overflow of \<open>difference_type\<close> is not modelled.
\<close>

definition wrap_dim :: "nat \<Rightarrow> int \<Rightarrow> CartesianProductIterator \<Rightarrow> CartesianProductIterator" where
  \<comment> \<open>the assignment \<open>iterator = end\<close> of the branch \<open>offset < 0\<close>, \<open>iterator == begin\<close>\<close>
  "wrap_dim i offset c =
     (if offset < 0 \<and> c_iterator c ! i = c_begin c ! i then set_dim i (c_end c ! i) c else c)"

definition dist_dim :: "nat \<Rightarrow> int \<Rightarrow> CartesianProductIterator \<Rightarrow> int" where
  \<comment> \<open>the value of \<open>dist\<close>, read on the cursor before \<open>wrap_dim\<close>\<close>
  "dist_dim i offset c =
     (if offset < 0
      then (if c_iterator c ! i = c_begin c ! i then c_end c ! i - c_begin c ! i
            else c_iterator c ! i - c_begin c ! i + 1)
      else c_end c ! i - c_iterator c ! i)"

fun operatorPlusImpl ::
  "nat \<Rightarrow> int \<Rightarrow> CartesianProductIterator \<Rightarrow> error + CartesianProductIterator" where
  "operatorPlusImpl 0 offset c = Inr (set_dim 0 (c_iterator c ! 0 + offset) c)"
| "operatorPlusImpl (Suc i) offset c =
     (if dist_dim (Suc i) offset c = 0 then Inl DivisionByZero
      else operatorPlusImpl i (offset sdiv dist_dim (Suc i) offset c)
             (set_dim (Suc i)
                (c_iterator (wrap_dim (Suc i) offset c) ! Suc i + offset smod dist_dim (Suc i) offset c)
                (wrap_dim (Suc i) offset c)))"

definition plusIs :: "int \<Rightarrow> CartesianProductIterator \<Rightarrow> error + CartesianProductIterator" where
  "plusIs n c =
     (case operatorPlusImpl (length (c_iterator c) - 1) n c of
        Inl e \<Rightarrow> Inl e
      | Inr c' \<Rightarrow> Inr (checkEnd c'))"

text \<open>\<open>eq\<close> compares the tuples of current positions, nothing else.\<close>

definition eq :: "CartesianProductIterator \<Rightarrow> CartesianProductIterator \<Rightarrow> bool" where
  "eq c other = (c_iterator c = c_iterator other)"

text \<open>
  \<open>difference_type\<close> is \<open>CommonType<DiffType<Iterators>...>\<close>, which is \<open>std::ptrdiff_t\<close>
  for the standard iterators: a signed integer of 64 bits. \<open>difference_type x\<close> is the
  value that a result \<open>x\<close> has in that type: \<open>x\<close> itself inside the range, wrapped around
  (two's complement) outside.
\<close>

definition difference_type :: "int \<Rightarrow> int" where
  "difference_type x = signed_take_bit 63 x"

text \<open>
  \<open>distanceImpl\<close> casts the per-dimension differences to \<open>difference_type\<close> and
  multiplies them in that type, starting from 1 (\<open>std::accumulate\<close> with
  \<open>std::multiplies<difference_type>\<close>); \<open>a.difference(b)\<close> is \<open>b.distanceImpl(a)\<close>. The
  base class \<open>IterBase\<close> is not among the sources; its \<open>a - b\<close> is taken to be
  \<open>a.difference(b)\<close>, the distance from \<open>b\<close> to \<open>a\<close>.
\<close>

definition distanceImpl :: "CartesianProductIterator \<Rightarrow> CartesianProductIterator \<Rightarrow> int" where
  "distanceImpl this c =
     foldl (\<lambda>acc d. difference_type (acc * d)) 1
       (map2 (\<lambda>x y. difference_type (x - y)) (c_iterator c) (c_iterator this))"

definition difference :: "CartesianProductIterator \<Rightarrow> CartesianProductIterator \<Rightarrow> int" where
  "difference this other = distanceImpl other this"

text \<open>
  The cursor that stands on the first combination, the tuple of begins, and the test for
  an empty dimension (one whose begin is its end).
\<close>

definition first_combination :: "int list \<Rightarrow> int list \<Rightarrow> CartesianProductIterator" where
  "first_combination begins ends = CartesianProductIterator_ctor begins begins ends"

definition empty_dimension :: "int list \<Rightarrow> int list \<Rightarrow> bool" where
  "empty_dimension begins ends = list_ex (\<lambda>(b, e). b = e) (zip begins ends)"

text \<open>
  Modelled from the spec: the view that builds the two cursors of a product is not among
  the sources. Following the spec ("begin and end must be constructed from the same
  underlying sequence boundaries"; "An empty dimension anywhere makes the whole product
  empty; construction detects this and canonicalizes begin==end immediately without
  attempting any dereference"), the end cursor stands at the tuple of ends, which is the
  state that \<open>checkEnd\<close> assigns and \<open>previous\<close> tests, and the begin cursor stands at
  the tuple of begins when no dimension is empty and is the end cursor otherwise. Both
  are built from positions alone.
\<close>

definition product_end :: "int list \<Rightarrow> int list \<Rightarrow> CartesianProductIterator" where
  "product_end begins ends = CartesianProductIterator_ctor ends begins ends"

definition product_begin :: "int list \<Rightarrow> int list \<Rightarrow> CartesianProductIterator" where
  "product_begin begins ends =
     (if empty_dimension begins ends then product_end begins ends
      else first_combination begins ends)"

text \<open>
  Modelled from the spec: the consumer's loop ("repeatedly asks a View's begin cursor to
  dereference then advance, until it equals the end cursor"). The loop collects the tuple
  of positions the cursor stands at; a loop that never meets the end cursor has no
  result (\<open>None\<close>).
\<close>

partial_function (option) visit ::
  "CartesianProductIterator \<Rightarrow> CartesianProductIterator \<Rightarrow> int list list option" where
  "visit c stop =
     (if eq c stop then Some []
      else Option.bind (visit (increment c) stop) (\<lambda>r. Some (c_iterator c # r)))"

declare visit.simps [code]

text \<open>
  The odometer reading of a cursor, used to state what \<open>increment\<close> and \<open>plusIs\<close>
  compute. \<open>offsets\<close> are the per-dimension distances of \<open>_iterator\<close> from
  \<open>_begin\<close> (the digits) and \<open>sizes\<close> the distances of \<open>_end\<close> from \<open>_begin\<close> (the
  radices); a cursor is well formed when its three tuples have the same length.
\<close>

definition offsets :: "CartesianProductIterator \<Rightarrow> int list" where
  "offsets c = map2 (\<lambda>x b. x - b) (c_iterator c) (c_begin c)"

definition sizes :: "CartesianProductIterator \<Rightarrow> int list" where
  "sizes c = map2 (\<lambda>e b. e - b) (c_end c) (c_begin c)"

definition well_formed :: "CartesianProductIterator \<Rightarrow> bool" where
  "well_formed c \<longleftrightarrow>
     length (c_begin c) = length (c_iterator c) \<and> length (c_end c) = length (c_iterator c)"

text \<open>
  \<open>mrank ds ss\<close> is the number that the digits \<open>ds\<close> spell in the mixed radix \<open>ss\<close>,
  dimension 0 most significant. Digits are valid when each lies in \<open>[0, s)\<close>; after a
  carry out of dimension 0 the first digit may equal its radix (\<open>carried_digits\<close>), and
  after a jump it is only known to be non-negative (\<open>jumped_digits\<close>). \<open>mixed_radix ss k\<close>
  are the digits of \<open>k\<close>.
\<close>

fun mrank :: "int list \<Rightarrow> int list \<Rightarrow> int" where
  "mrank (d # ds) (s # ss) = d * prod_list ss + mrank ds ss"
| "mrank ds ss = 0"

definition valid_digits :: "int list \<Rightarrow> int list \<Rightarrow> bool" where
  "valid_digits ds ss = list_all2 (\<lambda>d s. 0 \<le> d \<and> d < s) ds ss"

fun carried_digits :: "int list \<Rightarrow> int list \<Rightarrow> bool" where
  "carried_digits (d # ds) (s # ss) = (0 \<le> d \<and> d \<le> s \<and> valid_digits ds ss)"
| "carried_digits ds ss = (ds = [] \<and> ss = [])"


fun jumped_digits :: "int list \<Rightarrow> int list \<Rightarrow> bool" where
  "jumped_digits (d # ds) (s # ss) = (0 \<le> d \<and> valid_digits ds ss)"
| "jumped_digits ds ss = (ds = [] \<and> ss = [])"

section \<open>JoinWhereIterator (detail/iterators/JoinWhereIterator.hpp)\<close>

text \<open>
  The wrapped iterators over the sequences \<open>A\<close> and \<open>B\<close> are positions (indices), and the
  sequences themselves are lists passed to every operation that reads an element. The three
  function objects \<open>_selectorA\<close>, \<open>_selectorB\<close> and \<open>_resultSelector\<close> never change
  after construction and are passed as parameters too. Keys are compared with \<open><\<close> only.
\<close>

record JoinWhereIterator =
  iterA :: nat
  endA :: nat
  iterB :: nat
  beginB :: nat
  endB :: nat

text \<open>
  \<open>std::lower_bound(first, lst, value, comp)\<close> is the standard library's: bisection on
  the length of the range, as libstdc++ and libc++ implement it. \<open>comp_at m\<close> stands for
  \<open>comp(*m, value)\<close>.
\<close>

function lower_bound_loop :: "(nat \<Rightarrow> bool) \<Rightarrow> nat \<Rightarrow> nat \<Rightarrow> nat" where
  "lower_bound_loop comp_at first len =
     (if 0 < len
      then (if comp_at (first + len div 2)
            then lower_bound_loop comp_at (first + len div 2 + 1) (len - len div 2 - 1)
            else lower_bound_loop comp_at first (len div 2))
      else first)"
  by pat_completeness auto
termination
  by (relation "measure (\<lambda>(comp_at, first, len). len)") auto

declare lower_bound_loop.simps [simp del]

definition lower_bound :: "'b list \<Rightarrow> nat \<Rightarrow> nat \<Rightarrow> 'k \<Rightarrow> ('b \<Rightarrow> 'k \<Rightarrow> bool) \<Rightarrow> nat" where
  "lower_bound B first lst val cmp =
     lower_bound_loop (\<lambda>m. cmp (B ! m) val) first (lst - first)"

text \<open>
  \<open>std::find_if(first, lst, pred)\<close> (serial): the first position whose element satisfies
  \<open>pred\<close>, or \<open>lst\<close>. The predicate of \<open>findNext\<close> writes \<open>_iterB\<close>, so it takes the
  cursor and returns it with its answer.
\<close>

partial_function (option) find_if ::
  "'a list \<Rightarrow> nat \<Rightarrow> nat \<Rightarrow> ('s \<Rightarrow> 'a \<Rightarrow> bool \<times> 's) \<Rightarrow> 's \<Rightarrow> (nat \<times> 's) option" where
  "find_if A first lst pred s =
     (if first = lst then Some (first, s)
      else if fst (pred s (A ! first)) then Some (first, snd (pred s (A ! first)))
      else find_if A (first + 1) lst pred (snd (pred s (A ! first))))"

declare find_if.simps [code]

text \<open>
  The lambda of \<open>findNext\<close>. The source has it three times with the same body: in the
  build without execution policies (lines 78-87), and in the two branches of the build
  with them, where \<open>std::find_if\<close> is called without (lines 50-60) and with the policy
  \<open>_exec\<close> (lines 65-75). In the last the lambda captures the local \<open>mutex\<close> of
  \<open>findNext\<close> and never locks it. One evaluation of the lambda is this function in all
  three.
\<close>

definition findNext_pred ::
  "'b list \<Rightarrow> ('a \<Rightarrow> 'k::ord) \<Rightarrow> ('b \<Rightarrow> 'k) \<Rightarrow> JoinWhereIterator \<Rightarrow> 'a \<Rightarrow> bool \<times> JoinWhereIterator" where
  "findNext_pred B selectorA selectorB this a =
     (let toFind = selectorA a;
          this1 = this\<lparr>iterB := lower_bound B (iterB this) (endB this) toFind
                                   (\<lambda>b val. selectorB b < val)\<rparr>
      in if iterB this1 \<noteq> endB this1 \<and> \<not> toFind < selectorB (B ! iterB this1)
         then (True, this1)
         else (False, this1\<lparr>iterB := beginB this1\<rparr>))"

definition findNext ::
  "'a list \<Rightarrow> 'b list \<Rightarrow> ('a \<Rightarrow> 'k::ord) \<Rightarrow> ('b \<Rightarrow> 'k) \<Rightarrow> JoinWhereIterator \<Rightarrow> JoinWhereIterator option" where
  "findNext A B selectorA selectorB this =
     (case find_if A (iterA this) (endA this) (findNext_pred B selectorA selectorB) this of
        None \<Rightarrow> None
      | Some (found, this1) \<Rightarrow> Some (this1\<lparr>iterA := found\<rparr>))"

definition JoinWhereIterator_ctor ::
  "'a list \<Rightarrow> 'b list \<Rightarrow> ('a \<Rightarrow> 'k::ord) \<Rightarrow> ('b \<Rightarrow> 'k) \<Rightarrow> nat \<Rightarrow> nat \<Rightarrow> nat \<Rightarrow> nat \<Rightarrow>
     JoinWhereIterator option" where
  "JoinWhereIterator_ctor A B selectorA selectorB iterA0 endA0 iterB0 endB0 =
     (let this = \<lparr>iterA = iterA0, endA = endA0, iterB = iterB0,
                  beginB = (if iterB0 = endB0 then endB0 else iterB0), endB = endB0\<rparr>
      in if iterA this = endA this \<or> iterB this = endB this then Some this
         else findNext A B selectorA selectorB this)"

text \<open>
  \<open>dereference\<close> reads \<open>*_iterA\<close> and \<open>*_iterB\<close>; reading at or past the end of a
  sequence is undefined behaviour, the error \<open>PastTheEnd\<close>.
\<close>

definition dereference ::
  "'a list \<Rightarrow> 'b list \<Rightarrow> ('a \<Rightarrow> 'b \<Rightarrow> 'r) \<Rightarrow> JoinWhereIterator \<Rightarrow> error + 'r" where
  "dereference A B resultSelector this =
     (if iterA this < length A \<and> iterB this < length B
      then Inr (resultSelector (A ! iterA this) (B ! iterB this))
      else Inl PastTheEnd)"

text \<open>
  \<open>increment\<close> of the join cursor: \<open>++_iterB; findNext();\<close>. Advancing \<open>_iterB\<close> when
  it is not inside \<open>B\<close> is undefined behaviour, the error \<open>PastTheEnd\<close>.
\<close>

definition join_increment ::
  "'a list \<Rightarrow> 'b list \<Rightarrow> ('a \<Rightarrow> 'k::ord) \<Rightarrow> ('b \<Rightarrow> 'k) \<Rightarrow> JoinWhereIterator \<Rightarrow>
     (error + JoinWhereIterator) option" where
  "join_increment A B selectorA selectorB this =
     (if iterB this < length B
      then map_option Inr (findNext A B selectorA selectorB (this\<lparr>iterB := iterB this + 1\<rparr>))
      else Some (Inl PastTheEnd))"

definition join_eq :: "JoinWhereIterator \<Rightarrow> JoinWhereIterator \<Rightarrow> bool" where
  "join_eq a b = (iterA a = iterA b)"

text \<open>
  Modelled from the spec: the view of a join is not among the sources. Its begin cursor is
  constructed at the begins of \<open>A\<close> and \<open>B\<close>, its end cursor at the end of \<open>A\<close>; the
  test against the end cursor reads \<open>_iterA\<close> only, so the \<open>B\<close> position given to the end
  cursor is immaterial (here the end of \<open>B\<close>).
\<close>

definition join_begin ::
  "'a list \<Rightarrow> 'b list \<Rightarrow> ('a \<Rightarrow> 'k::ord) \<Rightarrow> ('b \<Rightarrow> 'k) \<Rightarrow> JoinWhereIterator option" where
  "join_begin A B selectorA selectorB =
     JoinWhereIterator_ctor A B selectorA selectorB 0 (length A) 0 (length B)"

definition join_end ::
  "'a list \<Rightarrow> 'b list \<Rightarrow> ('a \<Rightarrow> 'k::ord) \<Rightarrow> ('b \<Rightarrow> 'k) \<Rightarrow> JoinWhereIterator option" where
  "join_end A B selectorA selectorB =
     JoinWhereIterator_ctor A B selectorA selectorB (length A) (length A) (length B) (length B)"

text \<open>
  Modelled from the spec: the consumer's loop, dereference then increment until the cursor
  equals the end cursor. Undefined behaviour met on the way ends the loop with the error;
  a loop that does not end has no result.
\<close>

partial_function (option) join_traverse ::
  "'a list \<Rightarrow> 'b list \<Rightarrow> ('a \<Rightarrow> 'k::ord) \<Rightarrow> ('b \<Rightarrow> 'k) \<Rightarrow> ('a \<Rightarrow> 'b \<Rightarrow> 'r) \<Rightarrow>
     JoinWhereIterator \<Rightarrow> JoinWhereIterator \<Rightarrow> (error + 'r list) option" where
  "join_traverse A B selectorA selectorB resultSelector it stop =
     (if join_eq it stop then Some (Inr [])
      else case dereference A B resultSelector it of
             Inl e \<Rightarrow> Some (Inl e)
           | Inr v \<Rightarrow>
               Option.bind (join_increment A B selectorA selectorB it)
                 (\<lambda>r. case r of
                        Inl e \<Rightarrow> Some (Inl e)
                      | Inr it1 \<Rightarrow>
                          Option.bind (join_traverse A B selectorA selectorB resultSelector it1 stop)
                            (\<lambda>vs. Some (map_sum id ((#) v) vs))))"

declare join_traverse.simps [code]

section \<open>The legacy JoinWhereIterator (detail/JoinWhereIterator.hpp)\<close>

text \<open>
  The older class has the same members and one more, \<open>_iterBFound\<close>, the position of the
  match that \<open>operator*\<close> reads.
\<close>

record LegacyJoinWhereIterator = JoinWhereIterator +
  iterBFound :: nat

definition legacy_search ::
  "'b list \<Rightarrow> ('a \<Rightarrow> 'k::ord) \<Rightarrow> ('b \<Rightarrow> 'k) \<Rightarrow> LegacyJoinWhereIterator \<Rightarrow> 'a \<Rightarrow> nat" where
  \<comment> \<open>the call of \<open>std::lower_bound\<close> in the loop of \<open>findNext\<close>\<close>
  "legacy_search B selectorA selectorB this a =
     lower_bound B (iterB this) (endB this) (selectorA a) (\<lambda>b val. selectorB b < val)"

partial_function (option) legacy_findNext ::
  "'a list \<Rightarrow> 'b list \<Rightarrow> ('a \<Rightarrow> 'k::ord) \<Rightarrow> ('b \<Rightarrow> 'k) \<Rightarrow> LegacyJoinWhereIterator \<Rightarrow>
     LegacyJoinWhereIterator option" where
  "legacy_findNext A B selectorA selectorB this =
     (if iterA this \<noteq> endA this
      then (if legacy_search B selectorA selectorB this (A ! iterA this) \<noteq> endB this \<and>
               \<not> selectorA (A ! iterA this) <
                  selectorB (B ! legacy_search B selectorA selectorB this (A ! iterA this))
            then Some (this\<lparr>iterBFound := legacy_search B selectorA selectorB this (A ! iterA this),
                             iterB := legacy_search B selectorA selectorB this (A ! iterA this) + 1\<rparr>)
            else legacy_findNext A B selectorA selectorB
                   (this\<lparr>iterA := iterA this + 1, iterB := beginB this\<rparr>))
      else Some this)"

declare legacy_findNext.simps [code]

definition LegacyJoinWhereIterator_ctor ::
  "'a list \<Rightarrow> 'b list \<Rightarrow> ('a \<Rightarrow> 'k::ord) \<Rightarrow> ('b \<Rightarrow> 'k) \<Rightarrow> nat \<Rightarrow> nat \<Rightarrow> nat \<Rightarrow> nat \<Rightarrow>
     LegacyJoinWhereIterator option" where
  "LegacyJoinWhereIterator_ctor A B selectorA selectorB iterA0 endA0 iterB0 endB0 =
     (let this = \<lparr>iterA = iterA0, endA = endA0, iterB = iterB0,
                  beginB = (if iterB0 = endB0 then endB0 else iterB0), endB = endB0,
                  iterBFound = (if iterB0 = endB0 then endB0 else iterB0)\<rparr>
      in if iterA this = endA this \<or> iterB this = endB this then Some this
         else legacy_findNext A B selectorA selectorB this)"

text \<open>\<open>operator*\<close> reads \<open>*_iterA\<close> and \<open>*_iterBFound\<close>; \<open>operator++\<close> is \<open>findNext()\<close>.\<close>

definition legacy_dereference ::
  "'a list \<Rightarrow> 'b list \<Rightarrow> ('a \<Rightarrow> 'b \<Rightarrow> 'r) \<Rightarrow> LegacyJoinWhereIterator \<Rightarrow> error + 'r" where
  "legacy_dereference A B resultSelector this =
     (if iterA this < length A \<and> iterBFound this < length B
      then Inr (resultSelector (A ! iterA this) (B ! iterBFound this))
      else Inl PastTheEnd)"

definition legacy_increment ::
  "'a list \<Rightarrow> 'b list \<Rightarrow> ('a \<Rightarrow> 'k::ord) \<Rightarrow> ('b \<Rightarrow> 'k) \<Rightarrow> LegacyJoinWhereIterator \<Rightarrow>
     LegacyJoinWhereIterator option" where
  "legacy_increment A B selectorA selectorB this = legacy_findNext A B selectorA selectorB this"

definition legacy_eq :: "LegacyJoinWhereIterator \<Rightarrow> LegacyJoinWhereIterator \<Rightarrow> bool" where
  "legacy_eq a b = (iterA a = iterA b)"

definition legacy_begin ::
  "'a list \<Rightarrow> 'b list \<Rightarrow> ('a \<Rightarrow> 'k::ord) \<Rightarrow> ('b \<Rightarrow> 'k) \<Rightarrow> LegacyJoinWhereIterator option" where
  \<comment> \<open>Modelled from the spec: the begin cursor of the view, as \<open>join_begin\<close>\<close>
  "legacy_begin A B selectorA selectorB =
     LegacyJoinWhereIterator_ctor A B selectorA selectorB 0 (length A) 0 (length B)"

definition legacy_end ::
  "'a list \<Rightarrow> 'b list \<Rightarrow> ('a \<Rightarrow> 'k::ord) \<Rightarrow> ('b \<Rightarrow> 'k) \<Rightarrow> LegacyJoinWhereIterator option" where
  \<comment> \<open>Modelled from the spec: the end cursor of the view, as \<open>join_end\<close>\<close>
  "legacy_end A B selectorA selectorB =
     LegacyJoinWhereIterator_ctor A B selectorA selectorB (length A) (length A) (length B) (length B)"

partial_function (option) legacy_traverse ::
  "'a list \<Rightarrow> 'b list \<Rightarrow> ('a \<Rightarrow> 'k::ord) \<Rightarrow> ('b \<Rightarrow> 'k) \<Rightarrow> ('a \<Rightarrow> 'b \<Rightarrow> 'r) \<Rightarrow>
     LegacyJoinWhereIterator \<Rightarrow> LegacyJoinWhereIterator \<Rightarrow> (error + 'r list) option" where
  "legacy_traverse A B selectorA selectorB resultSelector it stop =
     (if legacy_eq it stop then Some (Inr [])
      else case legacy_dereference A B resultSelector it of
             Inl e \<Rightarrow> Some (Inl e)
           | Inr v \<Rightarrow>
               Option.bind (legacy_increment A B selectorA selectorB it)
                 (\<lambda>it1. Option.bind (legacy_traverse A B selectorA selectorB resultSelector it1 stop)
                            (\<lambda>vs. Some (map_sum id ((#) v) vs))))"

declare legacy_traverse.simps [code]

section \<open>ExceptIterator and MapIterator (detail/ExceptIterator.hpp, detail/MapIterator.hpp)\<close>

text \<open>
  Of the exclusion filter only the members that its comparison reads are modelled: the
  position \<open>_iterator\<close> and the end \<open>_end\<close> of the filtered sequence. \<open>operator!=\<close>
  compares \<open>_iterator\<close> with the other cursor's \<open>_end\<close>; \<open>operator==\<close> negates it.
\<close>

record ExceptIterator =
  e_iterator :: nat
  e_end :: nat

definition except_neq :: "ExceptIterator \<Rightarrow> ExceptIterator \<Rightarrow> bool" where
  "except_neq this other = (e_iterator this \<noteq> e_end other)"

definition except_eq :: "ExceptIterator \<Rightarrow> ExceptIterator \<Rightarrow> bool" where
  "except_eq this other = (\<not> except_neq this other)"

text \<open>The mapping cursor compares the wrapped positions.\<close>

record MapIterator =
  m_iterator :: nat

definition map_neq :: "MapIterator \<Rightarrow> MapIterator \<Rightarrow> bool" where
  "map_neq a b = (m_iterator a \<noteq> m_iterator b)"

definition map_eq :: "MapIterator \<Rightarrow> MapIterator \<Rightarrow> bool" where
  "map_eq a b = (\<not> map_neq a b)"

section \<open>The invariant of the join cursor, and the spec's example\<close>

text \<open>
  The invariant of the spec's data model, on the class under \<open>detail/iterators\<close>: the
  cursor is exhausted, or \<open>_iterB\<close> (the position \<open>dereference\<close> reads) stands on an
  element of \<open>B\<close> whose key is neither greater nor less than the key of \<open>*_iterA\<close>.
\<close>

definition join_invariant ::
  "'a list \<Rightarrow> 'b list \<Rightarrow> ('a \<Rightarrow> 'k::ord) \<Rightarrow> ('b \<Rightarrow> 'k) \<Rightarrow> JoinWhereIterator \<Rightarrow> bool" where
  "join_invariant A B selectorA selectorB this =
     (iterA this = endA this \<or>
      (iterB this < length B \<and>
       \<not> selectorA (A ! iterA this) < selectorB (B ! iterB this) \<and>
       \<not> selectorB (B ! iterB this) < selectorA (A ! iterA this)))"

text \<open>The same for the legacy class, whose matched position is \<open>_iterBFound\<close>.\<close>

definition legacy_invariant ::
  "'a list \<Rightarrow> 'b list \<Rightarrow> ('a \<Rightarrow> 'k::ord) \<Rightarrow> ('b \<Rightarrow> 'k) \<Rightarrow> LegacyJoinWhereIterator \<Rightarrow> bool" where
  "legacy_invariant A B selectorA selectorB this =
     (iterA this = endA this \<or>
      (iterBFound this < length B \<and>
       \<not> selectorA (A ! iterA this) < selectorB (B ! iterBFound this) \<and>
       \<not> selectorB (B ! iterBFound this) < selectorA (A ! iterA this)))"

text \<open>
  The example of the spec: \<open>A = [1,2,2,3]\<close>, \<open>B = [(1,"x"), (2,"y"), (2,"z"), (4,"w")]\<close>,
  the key of an element of \<open>A\<close> is the element, the key of an element of \<open>B\<close> its first
  component, and the combiner pairs the element of \<open>A\<close> with the text of the element of
  \<open>B\<close>.
\<close>

definition example_A :: "int list" where
  "example_A = [1, 2, 2, 3]"

definition example_B :: "(int \<times> string) list" where
  "example_B = [(1, ''x''), (2, ''y''), (2, ''z''), (4, ''w'')]"

definition example_pair :: "int \<Rightarrow> int \<times> string \<Rightarrow> int \<times> string" where
  "example_pair a b = (a, snd b)"

definition example_cursor :: "nat \<Rightarrow> nat \<Rightarrow> JoinWhereIterator" where
  \<comment> \<open>a cursor over the example, begun at the begin of \<open>B\<close>\<close>
  "example_cursor a b = \<lparr>iterA = a, endA = 4, iterB = b, beginB = 0, endB = 4\<rparr>"

definition example_end :: JoinWhereIterator where
  "example_end = \<lparr>iterA = 4, endA = 4, iterB = 4, beginB = 4, endB = 4\<rparr>"

section \<open>The join cursor on the spec's example\<close>

lemma example_begin_eval:
  "join_begin example_A example_B id fst = Some (example_cursor 0 0)"
  by code_simp

lemma example_end_eval:
  "join_end example_A example_B id fst = Some example_end"
  by code_simp

lemma example_traverse_eval:
  "join_traverse example_A example_B id fst example_pair (example_cursor 0 0) example_end =
     Some (Inr [(1, ''x''), (2, ''y''), (2, ''z''), (2, ''y''), (2, ''z'')])"
  by code_simp

lemma example_increment_eval:
  "join_increment example_A example_B id fst (example_cursor 0 0) = Some (Inr (example_cursor 1 1))"
  "join_increment example_A example_B id fst (example_cursor 1 1) = Some (Inr (example_cursor 1 2))"
  "join_increment example_A example_B id fst (example_cursor 1 2) = Some (Inr (example_cursor 2 1))"
  "join_increment example_A example_B id fst (example_cursor 2 1) = Some (Inr (example_cursor 2 2))"
  "join_increment example_A example_B id fst (example_cursor 2 2) = Some (Inr (example_cursor 4 0))"
  by code_simp+

lemma example_dereference_eval:
  "dereference example_A example_B example_pair (example_cursor 0 0) = Inr (1, ''x'')"
  "dereference example_A example_B example_pair (example_cursor 1 1) = Inr (2, ''y'')"
  "dereference example_A example_B example_pair (example_cursor 1 2) = Inr (2, ''z'')"
  "dereference example_A example_B example_pair (example_cursor 2 1) = Inr (2, ''y'')"
  "dereference example_A example_B example_pair (example_cursor 2 2) = Inr (2, ''z'')"
  by code_simp+

lemma example_eq_eval:
  "\<not> join_eq (example_cursor 0 0) example_end"
  "\<not> join_eq (example_cursor 1 1) example_end"
  "\<not> join_eq (example_cursor 1 2) example_end"
  "\<not> join_eq (example_cursor 2 1) example_end"
  "\<not> join_eq (example_cursor 2 2) example_end"
  "join_eq (example_cursor 4 0) example_end"
  by code_simp+

text \<open>
  C1, as the claim states it, fails: the traversal of the example does not stop after
  \<open>(1,"x"), (2,"y"), (2,"z")\<close>. The cursor that has yielded \<open>(2,"z")\<close> for the first
  \<open>2\<close> of \<open>A\<close> is not the end cursor, and the whole traversal is not that list.
\<close>

theorem C1_three_results_counterexample:
  "join_begin example_A example_B id fst = Some (example_cursor 0 0) \<and>
   join_end example_A example_B id fst = Some example_end \<and>
   join_traverse example_A example_B id fst example_pair (example_cursor 0 0) example_end \<noteq>
     Some (Inr [(1, ''x''), (2, ''y''), (2, ''z'')])"
  by (simp add: example_begin_eval example_end_eval example_traverse_eval)

text \<open>
  C1, amended: over the example the traversal from the begin cursor yields
  \<open>(1,"x"), (2,"y"), (2,"z"), (2,"y"), (2,"z")\<close> and then the cursor equals the end cursor:
  each of the two elements \<open>2\<close> of \<open>A\<close> is joined with both elements of \<open>B\<close> of key \<open>2\<close>.
  Each increment searches \<open>B\<close> again from the position after the match with the key of the
  same element of \<open>A\<close> (the cursor stays on \<open>A\<close>'s position 1, then 2, while \<open>B\<close> goes from
  1 to 2) before it moves on in \<open>A\<close> and restarts at the begin of \<open>B\<close>.
\<close>

theorem C1_join_example_traversal:
  "join_begin example_A example_B id fst = Some (example_cursor 0 0) \<and>
   join_end example_A example_B id fst = Some example_end \<and>
   join_traverse example_A example_B id fst example_pair (example_cursor 0 0) example_end =
     Some (Inr [(1, ''x''), (2, ''y''), (2, ''z''), (2, ''y''), (2, ''z'')]) \<and>
   dereference example_A example_B example_pair (example_cursor 0 0) = Inr (1, ''x'') \<and>
   join_increment example_A example_B id fst (example_cursor 0 0) = Some (Inr (example_cursor 1 1)) \<and>
   dereference example_A example_B example_pair (example_cursor 1 1) = Inr (2, ''y'') \<and>
   join_increment example_A example_B id fst (example_cursor 1 1) = Some (Inr (example_cursor 1 2)) \<and>
   dereference example_A example_B example_pair (example_cursor 1 2) = Inr (2, ''z'') \<and>
   join_increment example_A example_B id fst (example_cursor 1 2) = Some (Inr (example_cursor 2 1)) \<and>
   dereference example_A example_B example_pair (example_cursor 2 1) = Inr (2, ''y'') \<and>
   join_increment example_A example_B id fst (example_cursor 2 1) = Some (Inr (example_cursor 2 2)) \<and>
   dereference example_A example_B example_pair (example_cursor 2 2) = Inr (2, ''z'') \<and>
   join_increment example_A example_B id fst (example_cursor 2 2) = Some (Inr (example_cursor 4 0)) \<and>
   \<not> join_eq (example_cursor 1 2) example_end \<and>
   join_eq (example_cursor 4 0) example_end"
  by (simp only: example_begin_eval example_end_eval example_traverse_eval
        example_increment_eval example_dereference_eval example_eq_eval simp_thms)

section \<open>The legacy join iterator and the serial path of the newer one\<close>

lemma lower_bound_loop_0 [simp]: "lower_bound_loop p first 0 = first"
  by (simp add: lower_bound_loop.simps)

lemma lower_bound_loop_range:
  "first \<le> lower_bound_loop p first len \<and> lower_bound_loop p first len \<le> first + len"
proof (induction p first len rule: lower_bound_loop.induct)
  case (1 p first len)
  show ?case
  proof (cases "0 < len")
    case False
    then show ?thesis by simp
  next
    case True
    show ?thesis
    proof (cases "p (first + len div 2)")
      case True
      with \<open>0 < len\<close> "1.IH"(1) show ?thesis
        by (simp add: lower_bound_loop.simps[of p first len])
    next
      case False
      have "len div 2 \<le> len" by simp
      with False \<open>0 < len\<close> "1.IH"(2) show ?thesis
        by (simp add: lower_bound_loop.simps[of p first len]) linarith
    qed
  qed
qed

lemma lower_bound_loop_stop:
  "lower_bound_loop p first len = first + len \<or> \<not> p (lower_bound_loop p first len)"
proof (induction p first len rule: lower_bound_loop.induct)
  case (1 p first len)
  show ?case
  proof (cases "0 < len")
    case False
    then show ?thesis by simp
  next
    case True
    show ?thesis
    proof (cases "p (first + len div 2)")
      case True
      have "first + len div 2 + 1 + (len - len div 2 - 1) = first + len"
        using \<open>0 < len\<close> by simp
      with True \<open>0 < len\<close> "1.IH"(1) show ?thesis
        by (simp add: lower_bound_loop.simps[of p first len])
    next
      case False
      have r: "lower_bound_loop p first len = lower_bound_loop p first (len div 2)"
        using False \<open>0 < len\<close> by (simp add: lower_bound_loop.simps[of p first len])
      from "1.IH"(2)[OF \<open>0 < len\<close> False] show ?thesis
      proof
        assume "lower_bound_loop p first (len div 2) = first + len div 2"
        with r False show ?thesis by simp
      next
        assume "\<not> p (lower_bound_loop p first (len div 2))"
        with r show ?thesis by simp
      qed
    qed
  qed
qed

lemma lower_bound_range:
  "first \<le> lst \<Longrightarrow> first \<le> lower_bound B first lst v cmp \<and> lower_bound B first lst v cmp \<le> lst"
  using lower_bound_loop_range[of first "\<lambda>m. cmp (B ! m) v" "lst - first"]
  by (simp add: lower_bound_def)

lemma lower_bound_stop:
  "first \<le> lst \<Longrightarrow> lower_bound B first lst v cmp = lst \<or> \<not> cmp (B ! lower_bound B first lst v cmp) v"
  using lower_bound_loop_stop[of "\<lambda>m. cmp (B ! m) v" first "lst - first"]
  by (simp add: lower_bound_def)


lemma findNext_pred_eval:
  "findNext_pred B selectorA selectorB n a =
     (if lower_bound B (iterB n) (endB n) (selectorA a) (\<lambda>b val. selectorB b < val) \<noteq> endB n \<and>
         \<not> selectorA a <
            selectorB (B ! lower_bound B (iterB n) (endB n) (selectorA a) (\<lambda>b val. selectorB b < val))
      then (True, n\<lparr>iterB := lower_bound B (iterB n) (endB n) (selectorA a) (\<lambda>b val. selectorB b < val)\<rparr>)
      else (False, n\<lparr>iterB := beginB n\<rparr>))"
  by (simp add: findNext_pred_def Let_def)

lemma find_if_simulation:
  fixes selectorA :: "'a \<Rightarrow> 'k::ord" and l :: LegacyJoinWhereIterator and n :: JoinWhereIterator
  assumes "first \<le> lst" "iterA l = first" "endA l = lst"
    and "iterB l = iterB n" "beginB l = beginB n" "endB l = endB n"
    and "iterB n \<le> endB n" "beginB n \<le> endB n"
  shows "\<exists>found n' l'.
     find_if A first lst (findNext_pred B selectorA selectorB) n = Some (found, n') \<and>
     legacy_findNext A B selectorA selectorB l = Some l' \<and>
     first \<le> found \<and> found \<le> lst \<and>
     iterA l' = found \<and> endA l' = lst \<and> beginB l' = beginB n \<and> endB l' = endB n \<and>
     iterA n' = iterA n \<and> endA n' = endA n \<and> beginB n' = beginB n \<and> endB n' = endB n \<and>
     (found \<noteq> lst \<longrightarrow>
        iterBFound l' = iterB n' \<and> iterB l' = iterB n' + 1 \<and> iterB n' < endB n \<and>
        \<not> selectorA (A ! found) < selectorB (B ! iterB n') \<and>
        \<not> selectorB (B ! iterB n') < selectorA (A ! found) \<and>
        (found = first \<longrightarrow> iterB n \<le> iterB n'))"
  using assms
proof (induction "lst - first" arbitrary: first l n)
  case 0
  then have eq: "first = lst" by simp
  show ?case
    using 0 eq
    by (subst find_if.simps, subst legacy_findNext.simps) simp
next
  case (Suc k)
  then have lt: "first < lst" and ne: "first \<noteq> lst" by simp_all
  let ?a = "A ! first"
  let ?lb = "lower_bound B (iterB n) (endB n) (selectorA ?a) (\<lambda>b val. selectorB b < val)"
  have ls: "legacy_search B selectorA selectorB l ?a = ?lb"
    using Suc.prems by (simp add: legacy_search_def)
  have rng: "iterB n \<le> ?lb \<and> ?lb \<le> endB n"
    by (rule lower_bound_range[OF \<open>iterB n \<le> endB n\<close>])
  show ?case
  proof (cases "?lb \<noteq> endB n \<and> \<not> selectorA ?a < selectorB (B ! ?lb)")
    case True
    have stop: "\<not> selectorB (B ! ?lb) < selectorA ?a"
      using lower_bound_stop[OF \<open>iterB n \<le> endB n\<close>, of B "selectorA ?a" "\<lambda>b val. selectorB b < val"] True
      by blast
    have f: "find_if A first lst (findNext_pred B selectorA selectorB) n = Some (first, n\<lparr>iterB := ?lb\<rparr>)"
      using True ne by (subst find_if.simps) (simp add: findNext_pred_eval)
    have g: "legacy_findNext A B selectorA selectorB l = Some (l\<lparr>iterBFound := ?lb, iterB := ?lb + 1\<rparr>)"
      using True ne Suc.prems ls by (subst legacy_findNext.simps) simp
    show ?thesis
      using f g True stop rng lt Suc.prems by simp
  next
    case False
    let ?n2 = "n\<lparr>iterB := beginB n\<rparr>"
    let ?l2 = "l\<lparr>iterA := first + 1, iterB := beginB l\<rparr>"
    have f: "find_if A first lst (findNext_pred B selectorA selectorB) n =
             find_if A (first + 1) lst (findNext_pred B selectorA selectorB) ?n2"
      using False ne by (subst find_if.simps) (auto simp add: findNext_pred_eval)
    have g: "legacy_findNext A B selectorA selectorB l = legacy_findNext A B selectorA selectorB ?l2"
      using False ne Suc.prems ls by (subst legacy_findNext.simps) auto
    have k: "k = lst - (first + 1)" using Suc.hyps(2) by simp
    have "\<exists>found n' l'.
       find_if A (first + 1) lst (findNext_pred B selectorA selectorB) ?n2 = Some (found, n') \<and>
       legacy_findNext A B selectorA selectorB ?l2 = Some l' \<and>
       first + 1 \<le> found \<and> found \<le> lst \<and>
       iterA l' = found \<and> endA l' = lst \<and> beginB l' = beginB ?n2 \<and> endB l' = endB ?n2 \<and>
       iterA n' = iterA ?n2 \<and> endA n' = endA ?n2 \<and> beginB n' = beginB ?n2 \<and> endB n' = endB ?n2 \<and>
       (found \<noteq> lst \<longrightarrow>
          iterBFound l' = iterB n' \<and> iterB l' = iterB n' + 1 \<and> iterB n' < endB ?n2 \<and>
          \<not> selectorA (A ! found) < selectorB (B ! iterB n') \<and>
          \<not> selectorB (B ! iterB n') < selectorA (A ! found) \<and>
          (found = first + 1 \<longrightarrow> iterB ?n2 \<le> iterB n'))"
      using Suc.prems lt by (intro Suc.hyps(1)[OF k]) simp_all
    then obtain found n' l' where
      r: "find_if A (first + 1) lst (findNext_pred B selectorA selectorB) ?n2 = Some (found, n')"
         "legacy_findNext A B selectorA selectorB ?l2 = Some l'"
         "first + 1 \<le> found" "found \<le> lst"
         "iterA l' = found" "endA l' = lst" "beginB l' = beginB n" "endB l' = endB n"
         "iterA n' = iterA n" "endA n' = endA n" "beginB n' = beginB n" "endB n' = endB n"
         "found \<noteq> lst \<longrightarrow>
            iterBFound l' = iterB n' \<and> iterB l' = iterB n' + 1 \<and> iterB n' < endB n \<and>
            \<not> selectorA (A ! found) < selectorB (B ! iterB n') \<and>
            \<not> selectorB (B ! iterB n') < selectorA (A ! found)"
      by auto
    show ?thesis
      using r f g by (intro exI[of _ found] exI[of _ n'] exI[of _ l']) auto
  qed
qed


lemma findNext_simulation:
  fixes selectorA :: "'a \<Rightarrow> 'k::ord" and l :: LegacyJoinWhereIterator and n :: JoinWhereIterator
  assumes "iterA l = iterA n" "endA l = endA n"
    and "iterB l = iterB n" "beginB l = beginB n" "endB l = endB n"
    and "iterA n \<le> endA n" "iterB n \<le> endB n" "beginB n \<le> endB n"
  shows "\<exists>n' l'.
     findNext A B selectorA selectorB n = Some n' \<and>
     legacy_findNext A B selectorA selectorB l = Some l' \<and>
     iterA n \<le> iterA n' \<and> iterA n' \<le> endA n \<and>
     iterA l' = iterA n' \<and> endA l' = endA n \<and> beginB l' = beginB n \<and> endB l' = endB n \<and>
     endA n' = endA n \<and> beginB n' = beginB n \<and> endB n' = endB n \<and>
     (iterA n' \<noteq> endA n \<longrightarrow>
        iterBFound l' = iterB n' \<and> iterB l' = iterB n' + 1 \<and> iterB n' < endB n \<and>
        \<not> selectorA (A ! iterA n') < selectorB (B ! iterB n') \<and>
        \<not> selectorB (B ! iterB n') < selectorA (A ! iterA n') \<and>
        (iterA n' = iterA n \<longrightarrow> iterB n \<le> iterB n'))"
proof -
  from find_if_simulation[of "iterA n" "endA n" l n A B selectorA selectorB] assms
  obtain found n' l' where
    r: "find_if A (iterA n) (endA n) (findNext_pred B selectorA selectorB) n = Some (found, n')"
       "legacy_findNext A B selectorA selectorB l = Some l'"
       "iterA n \<le> found" "found \<le> endA n"
       "iterA l' = found" "endA l' = endA n" "beginB l' = beginB n" "endB l' = endB n"
       "iterA n' = iterA n" "endA n' = endA n" "beginB n' = beginB n" "endB n' = endB n"
       "found \<noteq> endA n \<longrightarrow>
          iterBFound l' = iterB n' \<and> iterB l' = iterB n' + 1 \<and> iterB n' < endB n \<and>
          \<not> selectorA (A ! found) < selectorB (B ! iterB n') \<and>
          \<not> selectorB (B ! iterB n') < selectorA (A ! found) \<and>
          (found = iterA n \<longrightarrow> iterB n \<le> iterB n')"
    by auto
  have "findNext A B selectorA selectorB n = Some (n'\<lparr>iterA := found\<rparr>)"
    using r(1) by (simp add: findNext_def)
  with r show ?thesis
    by (intro exI[of _ "n'\<lparr>iterA := found\<rparr>"] exI[of _ l']) simp
qed

lemma traverse_simulation:
  fixes selectorA :: "'a \<Rightarrow> 'k::ord" and l :: LegacyJoinWhereIterator and n :: JoinWhereIterator
  assumes "endA n = length A" "endB n = length B" "iterA n \<le> endA n" "beginB n \<le> endB n"
    and "iterA l = iterA n" "endA l = endA n" "beginB l = beginB n" "endB l = endB n"
    and "iterA n \<noteq> endA n \<longrightarrow>
           iterBFound l = iterB n \<and> iterB l = iterB n + 1 \<and> iterB n < endB n"
    and "iterA ns = length A" "iterA ls = length A"
  shows "\<exists>vs. join_traverse A B selectorA selectorB resultSelector n ns = Some (Inr vs) \<and>
              legacy_traverse A B selectorA selectorB resultSelector l ls = Some (Inr vs)"
  using assms
proof (induction n arbitrary: l
    rule: wf_induct_rule[OF wf_measures[of "[\<lambda>n. endA n - iterA n, \<lambda>n. endB n - iterB n]"]])
  case (1 n)
  show ?case
  proof (cases "iterA n = endA n")
    case True
    then have "join_eq n ns" "legacy_eq l ls"
      using 1 by (simp_all add: join_eq_def legacy_eq_def)
    then show ?thesis
      by (subst join_traverse.simps, subst legacy_traverse.simps) simp
  next
    case False
    then have m: "iterBFound l = iterB n" "iterB l = iterB n + 1" "iterB n < endB n"
      and a: "iterA n < length A"
      using "1.prems" by auto
    let ?v = "resultSelector (A ! iterA n) (B ! iterB n)"
    let ?n2 = "n\<lparr>iterB := iterB n + 1\<rparr>"
    have d: "dereference A B resultSelector n = Inr ?v"
      "legacy_dereference A B resultSelector l = Inr ?v"
      using m a "1.prems" by (simp_all add: dereference_def legacy_dereference_def)
    have ne: "\<not> join_eq n ns" "\<not> legacy_eq l ls"
      using False "1.prems" by (simp_all add: join_eq_def legacy_eq_def)
    from findNext_simulation[of l ?n2 A B selectorA selectorB] m "1.prems"
    obtain n' l' where
      r: "findNext A B selectorA selectorB ?n2 = Some n'"
         "legacy_findNext A B selectorA selectorB l = Some l'"
         "iterA n \<le> iterA n'" "iterA n' \<le> endA n"
         "iterA l' = iterA n'" "endA l' = endA n" "beginB l' = beginB n" "endB l' = endB n"
         "endA n' = endA n" "beginB n' = beginB n" "endB n' = endB n"
         "iterA n' \<noteq> endA n \<longrightarrow>
            iterBFound l' = iterB n' \<and> iterB l' = iterB n' + 1 \<and> iterB n' < endB n \<and>
            (iterA n' = iterA n \<longrightarrow> iterB n + 1 \<le> iterB n')"
      by auto
    have dec: "(n', n) \<in> measures [\<lambda>n. endA n - iterA n, \<lambda>n. endB n - iterB n]"
      using r False "1.prems"(3) by auto
    from "1.IH"[OF dec, of l'] r "1.prems"
    obtain vs where
      t: "join_traverse A B selectorA selectorB resultSelector n' ns = Some (Inr vs)"
         "legacy_traverse A B selectorA selectorB resultSelector l' ls = Some (Inr vs)"
      by auto
    have i: "join_increment A B selectorA selectorB n = Some (Inr n')"
      using r(1) m "1.prems" by (simp add: join_increment_def)
    have j: "legacy_increment A B selectorA selectorB l = Some l'"
      using r(2) by (simp add: legacy_increment_def)
    have "join_traverse A B selectorA selectorB resultSelector n ns = Some (Inr (?v # vs))"
      using ne d i t by (subst join_traverse.simps) simp
    moreover
    have "legacy_traverse A B selectorA selectorB resultSelector l ls = Some (Inr (?v # vs))"
      using ne d j t by (subst legacy_traverse.simps) simp
    ultimately show ?thesis by blast
  qed
qed


lemma join_end_eval:
  "join_end A B selectorA selectorB =
     Some \<lparr>iterA = length A, endA = length A, iterB = length B, beginB = length B, endB = length B\<rparr>"
  by (simp add: join_end_def JoinWhereIterator_ctor_def)

lemma legacy_end_eval:
  "legacy_end A B selectorA selectorB =
     Some \<lparr>iterA = length A, endA = length A, iterB = length B, beginB = length B, endB = length B,
           iterBFound = length B\<rparr>"
  by (simp add: legacy_end_def LegacyJoinWhereIterator_ctor_def)

lemma join_begin_guard:
  "A = [] \<or> B = [] \<Longrightarrow>
   join_begin A B selectorA selectorB =
     Some \<lparr>iterA = 0, endA = length A, iterB = 0, beginB = 0, endB = length B\<rparr>"
  by (auto simp add: join_begin_def JoinWhereIterator_ctor_def)

lemma legacy_begin_guard:
  "A = [] \<or> B = [] \<Longrightarrow>
   legacy_begin A B selectorA selectorB =
     Some \<lparr>iterA = 0, endA = length A, iterB = 0, beginB = 0, endB = length B, iterBFound = 0\<rparr>"
  by (auto simp add: legacy_begin_def LegacyJoinWhereIterator_ctor_def)

lemma join_begin_search:
  "A \<noteq> [] \<Longrightarrow> B \<noteq> [] \<Longrightarrow>
   join_begin A B selectorA selectorB =
     findNext A B selectorA selectorB
       \<lparr>iterA = 0, endA = length A, iterB = 0, beginB = 0, endB = length B\<rparr>"
  by (simp add: join_begin_def JoinWhereIterator_ctor_def)

lemma legacy_begin_search:
  "A \<noteq> [] \<Longrightarrow> B \<noteq> [] \<Longrightarrow>
   legacy_begin A B selectorA selectorB =
     legacy_findNext A B selectorA selectorB
       \<lparr>iterA = 0, endA = length A, iterB = 0, beginB = 0, endB = length B, iterBFound = 0\<rparr>"
  by (simp add: legacy_begin_def LegacyJoinWhereIterator_ctor_def)

lemma begin_simulation:
  fixes selectorA :: "'a \<Rightarrow> 'k::ord"
  assumes "A \<noteq> []" "B \<noteq> []"
  shows "\<exists>n l. join_begin A B selectorA selectorB = Some n \<and>
     legacy_begin A B selectorA selectorB = Some l \<and>
     endA n = length A \<and> endB n = length B \<and> iterA n \<le> endA n \<and> beginB n = 0 \<and>
     iterA l = iterA n \<and> endA l = endA n \<and> beginB l = beginB n \<and> endB l = endB n \<and>
     (iterA n \<noteq> endA n \<longrightarrow>
        iterBFound l = iterB n \<and> iterB l = iterB n + 1 \<and> iterB n < endB n \<and>
        \<not> selectorA (A ! iterA n) < selectorB (B ! iterB n) \<and>
        \<not> selectorB (B ! iterB n) < selectorA (A ! iterA n))"
proof -
  let ?n = "\<lparr>iterA = 0, endA = length A, iterB = 0, beginB = 0, endB = length B\<rparr>"
  let ?l = "\<lparr>iterA = 0, endA = length A, iterB = 0, beginB = 0, endB = length B, iterBFound = 0\<rparr>"
  from findNext_simulation[of ?l ?n A B selectorA selectorB]
  obtain n' l' where
    "findNext A B selectorA selectorB ?n = Some n'"
    "legacy_findNext A B selectorA selectorB ?l = Some l'"
    "iterA n' \<le> length A"
    "iterA l' = iterA n'" "endA l' = length A" "beginB l' = 0" "endB l' = length B"
    "endA n' = length A" "beginB n' = 0" "endB n' = length B"
    "iterA n' \<noteq> length A \<longrightarrow>
        iterBFound l' = iterB n' \<and> iterB l' = iterB n' + 1 \<and> iterB n' < length B \<and>
        \<not> selectorA (A ! iterA n') < selectorB (B ! iterB n') \<and>
        \<not> selectorB (B ! iterB n') < selectorA (A ! iterA n')"
    by auto
  then show ?thesis
    using assms by (simp add: join_begin_search legacy_begin_search)
qed

lemma join_increment_invariant:
  fixes selectorA :: "'a \<Rightarrow> 'k::ord"
  assumes "endA c = length A" "endB c = length B" "iterA c \<le> endA c" "beginB c \<le> endB c"
    and "iterB c < length B"
  shows "\<exists>c'. join_increment A B selectorA selectorB c = Some (Inr c') \<and>
     join_invariant A B selectorA selectorB c' \<and>
     endA c' = length A \<and> endB c' = length B \<and> iterA c' \<le> endA c' \<and> beginB c' = beginB c"
proof -
  let ?n = "c\<lparr>iterB := iterB c + 1\<rparr>"
  let ?l = "\<lparr>iterA = iterA c, endA = endA c, iterB = iterB c + 1, beginB = beginB c,
            endB = endB c, iterBFound = 0\<rparr>"
  from findNext_simulation[of ?l ?n A B selectorA selectorB] assms
  obtain n' where
    "findNext A B selectorA selectorB ?n = Some n'"
    "iterA n' \<le> endA c" "endA n' = endA c" "beginB n' = beginB c" "endB n' = endB c"
    "iterA n' \<noteq> endA c \<longrightarrow>
        iterB n' < endB c \<and>
        \<not> selectorA (A ! iterA n') < selectorB (B ! iterB n') \<and>
        \<not> selectorB (B ! iterB n') < selectorA (A ! iterA n')"
    by auto
  then show ?thesis
    using assms by (auto simp add: join_increment_def join_invariant_def)
qed

lemma join_begin_invariant:
  fixes selectorA :: "'a \<Rightarrow> 'k::ord"
  assumes "B \<noteq> []"
  shows "\<exists>c. join_begin A B selectorA selectorB = Some c \<and>
     join_invariant A B selectorA selectorB c \<and>
     endA c = length A \<and> endB c = length B \<and> iterA c \<le> endA c \<and> beginB c = 0"
proof (cases "A = []")
  case True
  then show ?thesis
    using join_begin_guard[of A B selectorA selectorB]
    by (simp add: join_invariant_def)
next
  case False
  from begin_simulation[OF False assms, of selectorA selectorB]
  show ?thesis
    by (auto simp add: join_invariant_def)
qed

lemma join_empty_A_exhausted:
  "\<exists>b e. join_begin [] B selectorA selectorB = Some b \<and>
     join_end [] B selectorA selectorB = Some e \<and> join_eq b e"
  by (simp add: join_begin_guard join_end_eval join_eq_def)

lemma join_empty_B_not_exhausted:
  "A \<noteq> [] \<Longrightarrow>
   \<exists>b e. join_begin A [] selectorA selectorB = Some b \<and>
     join_end A [] selectorA selectorB = Some e \<and> \<not> join_eq b e \<and>
     dereference A [] resultSelector b = Inl PastTheEnd"
  by (simp add: join_begin_guard join_end_eval join_eq_def dereference_def)

text \<open>
  C6 at the input \<open>A = [1]\<close>, \<open>B = []\<close>: the constructor returns at its guard
  \<open>_iterA == _endA || _iterB == _endB\<close> and leaves \<open>_iterA\<close> at the begin of \<open>A\<close>, so the
  begin cursor does not compare equal to the end cursor, and dereferencing it reads \<open>B\<close> at
  its end. (With \<open>A\<close> empty the two cursors are equal: \<open>join_empty_A_exhausted\<close>; with
  \<open>B\<close> empty and \<open>A\<close> not, they never are: \<open>join_empty_B_not_exhausted\<close>.)
\<close>

theorem C6_empty_B_begin_is_not_end:
  "join_begin [1::int] ([]::int list) id id =
     Some \<lparr>iterA = 0, endA = 1, iterB = 0, beginB = 0, endB = 0\<rparr> \<and>
   join_end [1::int] ([]::int list) id id =
     Some \<lparr>iterA = 1, endA = 1, iterB = 0, beginB = 0, endB = 0\<rparr> \<and>
   \<not> join_eq \<lparr>iterA = 0, endA = 1, iterB = 0, beginB = 0, endB = 0\<rparr>
             \<lparr>iterA = 1, endA = 1, iterB = 0, beginB = 0, endB = 0\<rparr> \<and>
   dereference [1::int] ([]::int list) Pair \<lparr>iterA = 0, endA = 1, iterB = 0, beginB = 0, endB = 0\<rparr> =
     Inl PastTheEnd"
  by (simp add: join_begin_guard join_end_eval join_eq_def dereference_def)

text \<open>
  C7 at the same input \<open>A = [1]\<close>, \<open>B = []\<close> (an empty \<open>B\<close> is sorted): right after
  construction the cursor is not exhausted and its matched position is the end of \<open>B\<close>,
  which is no element; the same holds of the legacy class and its \<open>_iterBFound\<close>. For a
  non-empty \<open>B\<close> the invariant holds after construction and after every increment
  (\<open>join_begin_invariant\<close>, \<open>join_increment_invariant\<close>).
\<close>

theorem C7_invariant_fails_on_empty_B:
  "join_begin [1::int] ([]::int list) id id =
     Some \<lparr>iterA = 0, endA = 1, iterB = 0, beginB = 0, endB = 0\<rparr> \<and>
   \<not> join_invariant [1::int] ([]::int list) id id
       \<lparr>iterA = 0, endA = 1, iterB = 0, beginB = 0, endB = 0\<rparr> \<and>
   legacy_begin [1::int] ([]::int list) id id =
     Some \<lparr>iterA = 0, endA = 1, iterB = 0, beginB = 0, endB = 0, iterBFound = 0\<rparr> \<and>
   \<not> legacy_invariant [1::int] ([]::int list) id id
       \<lparr>iterA = 0, endA = 1, iterB = 0, beginB = 0, endB = 0, iterBFound = 0\<rparr>"
  by (simp add: join_begin_guard legacy_begin_guard join_invariant_def legacy_invariant_def)

text \<open>
  For all sequences, key selectors and combiner, the begin and end cursors of both classes
  exist, both traversals end, and they end with the same result: the same list of combined
  values, or, when \<open>B\<close> is empty and \<open>A\<close> is not, the undefined dereference of the begin
  cursor.
\<close>

lemma traversals_agree:
  fixes selectorA :: "'a \<Rightarrow> 'k::ord"
  shows "\<exists>b e lb le r.
     join_begin A B selectorA selectorB = Some b \<and>
     join_end A B selectorA selectorB = Some e \<and>
     legacy_begin A B selectorA selectorB = Some lb \<and>
     legacy_end A B selectorA selectorB = Some le \<and>
     join_traverse A B selectorA selectorB resultSelector b e = Some r \<and>
     legacy_traverse A B selectorA selectorB resultSelector lb le = Some r \<and>
     (if A \<noteq> [] \<and> B = [] then r = Inl PastTheEnd else (\<exists>vs. r = Inr vs))"
proof (cases "A = [] \<or> B = []")
  case True
  let ?b = "\<lparr>iterA = 0, endA = length A, iterB = 0, beginB = 0, endB = length B\<rparr>"
  let ?lb = "\<lparr>iterA = 0, endA = length A, iterB = 0, beginB = 0, endB = length B, iterBFound = 0\<rparr>"
  let ?e = "\<lparr>iterA = length A, endA = length A, iterB = length B, beginB = length B, endB = length B\<rparr>"
  let ?le = "\<lparr>iterA = length A, endA = length A, iterB = length B, beginB = length B, endB = length B,
           iterBFound = length B\<rparr>"
  let ?r = "if A \<noteq> [] \<and> B = [] then Inl PastTheEnd else Inr []"
  have "join_traverse A B selectorA selectorB resultSelector ?b ?e = Some ?r"
    using True
    by (subst join_traverse.simps) (auto simp add: join_eq_def dereference_def)
  moreover
  have "legacy_traverse A B selectorA selectorB resultSelector ?lb ?le = Some ?r"
    using True
    by (subst legacy_traverse.simps) (auto simp add: legacy_eq_def legacy_dereference_def)
  ultimately show ?thesis
    using join_begin_guard[OF True, of selectorA selectorB]
      legacy_begin_guard[OF True, of selectorA selectorB]
    by (intro exI[of _ ?b] exI[of _ ?e] exI[of _ ?lb] exI[of _ ?le] exI[of _ ?r])
      (simp add: join_end_eval legacy_end_eval)
next
  case False
  then have ne: "A \<noteq> []" "B \<noteq> []" by simp_all
  let ?e = "\<lparr>iterA = length A, endA = length A, iterB = length B, beginB = length B, endB = length B\<rparr>"
  let ?le = "\<lparr>iterA = length A, endA = length A, iterB = length B, beginB = length B, endB = length B,
           iterBFound = length B\<rparr>"
  from begin_simulation[OF ne, of selectorA selectorB]
  obtain n l where
    b: "join_begin A B selectorA selectorB = Some n" "legacy_begin A B selectorA selectorB = Some l"
      "endA n = length A" "endB n = length B" "iterA n \<le> endA n" "beginB n = 0"
      "iterA l = iterA n" "endA l = endA n" "beginB l = beginB n" "endB l = endB n"
      "iterA n \<noteq> endA n \<longrightarrow>
        iterBFound l = iterB n \<and> iterB l = iterB n + 1 \<and> iterB n < endB n"
    by blast
  from traverse_simulation[of n A B l ?e ?le selectorA selectorB resultSelector] b
  obtain vs where
    "join_traverse A B selectorA selectorB resultSelector n ?e = Some (Inr vs)"
    "legacy_traverse A B selectorA selectorB resultSelector l ?le = Some (Inr vs)"
    by auto
  with b ne show ?thesis
    by (simp add: join_end_eval legacy_end_eval)
qed

text \<open>
  C10, as the claim states it for every pair of ranges, fails at \<open>A = [1]\<close>, \<open>B = []\<close>:
  neither begin cursor is the end cursor; one increment of the legacy cursor runs
  \<open>_iterA\<close> to \<open>_endA\<close>, which exhausts it, while the increment of the newer cursor
  advances \<open>_iterB\<close>, which stands at the end of \<open>B\<close>: undefined behaviour, and no
  exhausted cursor.
\<close>

theorem C10_empty_B_counterexample:
  "legacy_begin [1::int] ([]::int list) id id =
     Some \<lparr>iterA = 0, endA = 1, iterB = 0, beginB = 0, endB = 0, iterBFound = 0\<rparr> \<and>
   legacy_end [1::int] ([]::int list) id id =
     Some \<lparr>iterA = 1, endA = 1, iterB = 0, beginB = 0, endB = 0, iterBFound = 0\<rparr> \<and>
   legacy_increment [1::int] ([]::int list) id id
       \<lparr>iterA = 0, endA = 1, iterB = 0, beginB = 0, endB = 0, iterBFound = 0\<rparr> =
     Some \<lparr>iterA = 1, endA = 1, iterB = 0, beginB = 0, endB = 0, iterBFound = 0\<rparr> \<and>
   legacy_eq \<lparr>iterA = 1, endA = 1, iterB = 0, beginB = 0, endB = 0, iterBFound = 0\<rparr>
             \<lparr>iterA = 1, endA = 1, iterB = 0, beginB = 0, endB = 0, iterBFound = 0\<rparr> \<and>
   join_begin [1::int] ([]::int list) id id =
     Some \<lparr>iterA = 0, endA = 1, iterB = 0, beginB = 0, endB = 0\<rparr> \<and>
   join_increment [1::int] ([]::int list) id id
       \<lparr>iterA = 0, endA = 1, iterB = 0, beginB = 0, endB = 0\<rparr> =
     Some (Inl PastTheEnd)"
  by code_simp

text \<open>
  C10, amended: for all sequences \<open>A\<close> and \<open>B\<close> with \<open>A\<close> empty or \<open>B\<close> non-empty, all
  key selectors and every combiner, the begin and end cursors of both classes exist, both
  traversals (dereference, then increment, until the cursor equals the end cursor) end
  without undefined behaviour, and they yield the same list of combined values, hence
  become exhausted after the same number of increments.
\<close>

theorem C10_join_classes_agree:
  fixes selectorA :: "'a \<Rightarrow> 'k::ord"
  assumes "A = [] \<or> B \<noteq> []"
  shows "\<exists>b e lb le vs.
     join_begin A B selectorA selectorB = Some b \<and>
     join_end A B selectorA selectorB = Some e \<and>
     legacy_begin A B selectorA selectorB = Some lb \<and>
     legacy_end A B selectorA selectorB = Some le \<and>
     join_traverse A B selectorA selectorB resultSelector b e = Some (Inr vs) \<and>
     legacy_traverse A B selectorA selectorB resultSelector lb le = Some (Inr vs)"
proof -
  from traversals_agree[of A B selectorA selectorB resultSelector]
  obtain b e lb le r where
    t: "join_begin A B selectorA selectorB = Some b"
       "join_end A B selectorA selectorB = Some e"
       "legacy_begin A B selectorA selectorB = Some lb"
       "legacy_end A B selectorA selectorB = Some le"
       "join_traverse A B selectorA selectorB resultSelector b e = Some r"
       "legacy_traverse A B selectorA selectorB resultSelector lb le = Some r"
       "if A \<noteq> [] \<and> B = [] then r = Inl PastTheEnd else (\<exists>vs. r = Inr vs)"
    by blast
  from t(7) assms obtain vs where "r = Inr vs" by (auto split: if_splits)
  with t show ?thesis by blast
qed

theorem C10_join_classes_agree_witness:
  "\<exists>lb le.
     legacy_begin example_A example_B id fst = Some lb \<and>
     legacy_end example_A example_B id fst = Some le \<and>
     legacy_traverse example_A example_B id fst example_pair lb le =
       Some (Inr [(1, ''x''), (2, ''y''), (2, ''z''), (2, ''y''), (2, ''z'')])"
proof -
  have h: "example_A = [] \<or> example_B \<noteq> []" by (simp add: example_B_def)
  from C10_join_classes_agree[OF h, of id fst example_pair]
  obtain b e lb le vs where
    t: "join_begin example_A example_B id fst = Some b"
       "join_end example_A example_B id fst = Some e"
       "legacy_begin example_A example_B id fst = Some lb"
       "legacy_end example_A example_B id fst = Some le"
       "join_traverse example_A example_B id fst example_pair b e = Some (Inr vs)"
       "legacy_traverse example_A example_B id fst example_pair lb le = Some (Inr vs)"
    by blast
  have "b = example_cursor 0 0" "e = example_end"
    using t(1,2) by (simp_all add: example_begin_eval example_end_eval)
  then have "vs = [(1, ''x''), (2, ''y''), (2, ''z''), (2, ''y''), (2, ''z'')]"
    using t(5) by (simp add: example_traverse_eval)
  with t(3,4,6) show ?thesis by blast
qed

section \<open>One evaluation of the lambda of findNext\<close>

lemma findNext_pred_miss:
  "\<not> fst (findNext_pred B selectorA selectorB this a) \<Longrightarrow>
   snd (findNext_pred B selectorA selectorB this a) = this\<lparr>iterB := beginB this\<rparr>"
  by (auto simp add: findNext_pred_eval split: if_splits)

text \<open>
  C9 at a state that the traversal of the spec's example reaches: the cursor standing on
  \<open>(2,"z")\<close> is incremented, \<open>_iterB\<close> becomes 3, and \<open>findNext\<close> evaluates its lambda on
  \<open>A\<close>'s element 2. The evaluation finds no match and yet writes the search position: it
  leaves \<open>_iterB\<close> at \<open>_beginB\<close>, 0 instead of 3. (Every evaluation that finds no match
  does so: \<open>findNext_pred_miss\<close>.)
\<close>

theorem C9_miss_writes_search_position:
  "example_A ! 1 = 2 \<and>
   findNext_pred example_B id fst (example_cursor 1 3) 2 = (False, example_cursor 1 0) \<and>
   iterB (example_cursor 1 3) = 3 \<and>
   iterB (snd (findNext_pred example_B id fst (example_cursor 1 3) 2)) = 0"
  by code_simp

section \<open>Equality of cursors\<close>

text \<open>
  C8, as the claim states it, fails. Two exclusion-filter cursors at the same position 0 of
  a sequence of one element do not compare equal, and one at position 1 compares equal to
  one at position 0. Two join cursors over the spec's example that stand on different
  matches, \<open>(2,"y")\<close> and \<open>(2,"z")\<close>, compare equal.
\<close>

theorem C8_position_equality_counterexample:
  "\<not> except_eq \<lparr>e_iterator = 0, e_end = 1\<rparr> \<lparr>e_iterator = 0, e_end = 1\<rparr> \<and>
   except_eq \<lparr>e_iterator = 1, e_end = 1\<rparr> \<lparr>e_iterator = 0, e_end = 1\<rparr> \<and>
   join_eq (example_cursor 1 1) (example_cursor 1 2) \<and>
   dereference example_A example_B example_pair (example_cursor 1 1) = Inr (2, ''y'') \<and>
   dereference example_A example_B example_pair (example_cursor 1 2) = Inr (2, ''z'')"
proof -
  have "join_eq (example_cursor 1 1) (example_cursor 1 2)"
    by (simp add: join_eq_def example_cursor_def)
  then show ?thesis
    using example_dereference_eval(2,3)
    by (simp add: except_eq_def except_neq_def)
qed

text \<open>
  C8, amended: two cartesian-product cursors compare equal iff their tuples of positions
  have the same length and agree in every dimension; two mapping cursors compare equal iff
  their positions are equal; two join cursors compare equal iff their positions in \<open>A\<close>
  are equal, whatever their positions in \<open>B\<close>.
\<close>

theorem C8_equality_of_cursors:
  "(eq c d \<longleftrightarrow>
      length (c_iterator c) = length (c_iterator d) \<and>
      (\<forall>i < length (c_iterator c). c_iterator c ! i = c_iterator d ! i)) \<and>
   (map_eq a b \<longleftrightarrow> m_iterator a = m_iterator b) \<and>
   (map_neq a b \<longleftrightarrow> m_iterator a \<noteq> m_iterator b) \<and>
   (join_eq x y \<longleftrightarrow> iterA x = iterA y)"
  by (simp add: eq_def map_eq_def map_neq_def join_eq_def list_eq_iff_nth_eq)

theorem C8_equality_of_cursors_witness:
  "eq (product_begin [0, 0] [2, 3]) (product_begin [0, 0] [2, 3]) \<and>
   \<not> eq (product_begin [0, 0] [2, 3]) (CartesianProductIterator_ctor [0, 1] [0, 0] [2, 3]) \<and>
   map_eq \<lparr>m_iterator = 2\<rparr> \<lparr>m_iterator = 2\<rparr> \<and>
   \<not> map_eq \<lparr>m_iterator = 2\<rparr> \<lparr>m_iterator = 3\<rparr> \<and>
   join_eq (example_cursor 1 1) (example_cursor 1 2) \<and>
   \<not> join_eq (example_cursor 1 1) (example_cursor 2 1)"
proof -
  have "\<exists>i<Suc (Suc 0). [0, 0::int] ! i \<noteq> [0, 1] ! i"
    by (rule exI[of _ 1]) simp
  then show ?thesis
    using C8_equality_of_cursors[of "product_begin [0, 0] [2, 3]" "product_begin [0, 0] [2, 3]"
            "\<lparr>m_iterator = 2\<rparr>" "\<lparr>m_iterator = 2\<rparr>" "example_cursor 1 1" "example_cursor 1 2"]
          C8_equality_of_cursors[of "product_begin [0, 0] [2, 3]"
            "CartesianProductIterator_ctor [0, 1] [0, 0] [2, 3]"
            "\<lparr>m_iterator = 2\<rparr>" "\<lparr>m_iterator = 3\<rparr>" "example_cursor 1 1" "example_cursor 2 1"]
    by (simp add: product_begin_def first_combination_def empty_dimension_def
          CartesianProductIterator_ctor_def example_cursor_def)
qed

section \<open>The odometer of the cartesian product\<close>

lemma mrank_snoc:
  "length ds = length ss \<Longrightarrow> mrank (ds @ [d]) (ss @ [s]) = mrank ds ss * s + d"
  by (induction ds ss rule: list_induct2) (simp_all add: algebra_simps)

lemma valid_digits_snoc:
  "length ds = length ss \<Longrightarrow>
   valid_digits (ds @ [d]) (ss @ [s]) \<longleftrightarrow> valid_digits ds ss \<and> 0 \<le> d \<and> d < s"
  by (simp add: valid_digits_def list_all2_append)

lemma valid_digits_length: "valid_digits ds ss \<Longrightarrow> length ds = length ss"
  by (simp add: valid_digits_def list_all2_lengthD)

lemma carried_digits_snoc:
  "length ds = length ss \<Longrightarrow> ds \<noteq> [] \<Longrightarrow>
   carried_digits (ds @ [d]) (ss @ [s]) \<longleftrightarrow> carried_digits ds ss \<and> 0 \<le> d \<and> d < s"
  by (cases ds; cases ss) (auto simp add: valid_digits_snoc)

lemma valid_imp_carried: "valid_digits ds ss \<Longrightarrow> carried_digits ds ss"
  by (cases ds; cases ss) (auto simp add: valid_digits_def)

lemma valid_digits_pos: "valid_digits ds ss \<Longrightarrow> 0 < prod_list ss"
  unfolding valid_digits_def
  by (induction ds ss rule: list_all2_induct) auto

lemma mrank_bounds:
  "valid_digits ds ss \<Longrightarrow> 0 \<le> mrank ds ss \<and> mrank ds ss < prod_list ss"
  unfolding valid_digits_def
proof (induction ds ss rule: list_all2_induct)
  case Nil
  then show ?case by simp
next
  case (Cons d ds s ss)
  have p: "0 < prod_list ss"
    using Cons.hyps(2) valid_digits_pos by (simp add: valid_digits_def)
  have "d * prod_list ss + mrank ds ss < (d + 1) * prod_list ss"
    using Cons.IH by (simp add: algebra_simps)
  also have "\<dots> \<le> s * prod_list ss"
    using Cons.hyps(1) p by (intro mult_right_mono) simp_all
  finally show ?case
    using Cons p by simp
qed


lemma set_dim_fields [simp]:
  "c_begin (set_dim i v c) = c_begin c"
  "c_end (set_dim i v c) = c_end c"
  "c_iterator (set_dim i v c) = (c_iterator c)[i := v]"
  by (simp_all add: set_dim_def)

lemma incr_dim_fields [simp]:
  "c_begin (incr_dim i c) = c_begin c"
  "c_end (incr_dim i c) = c_end c"
  "c_iterator (incr_dim i c) = (c_iterator c)[i := c_iterator c ! i + 1]"
  by (simp_all add: incr_dim_def)

lemma next_I_frame:
  "c_begin (next_I I c) = c_begin c \<and> c_end (next_I I c) = c_end c \<and>
   length (c_iterator (next_I I c)) = length (c_iterator c) \<and>
   (\<forall>i. I \<le> i \<longrightarrow> c_iterator (next_I I c) ! i = c_iterator c ! i)"
proof (induction I arbitrary: c)
  case 0
  then show ?case by simp
next
  case (Suc I)
  let ?c2 = "set_dim I (c_begin c ! I) (incr_dim I c)"
  from Suc.IH[of ?c2] show ?case by auto
qed

lemma well_formed_next_I: "well_formed c \<Longrightarrow> well_formed (next_I I c)"
  using next_I_frame[of I c] by (simp add: well_formed_def)

lemma sizes_next_I: "sizes (next_I I c) = sizes c"
  using next_I_frame[of I c] by (simp add: sizes_def)

lemma length_offsets: "well_formed c \<Longrightarrow> length (offsets c) = length (c_iterator c)"
  by (simp add: offsets_def well_formed_def)

lemma length_sizes: "well_formed c \<Longrightarrow> length (sizes c) = length (c_iterator c)"
  by (simp add: sizes_def well_formed_def)

lemma offsets_nth:
  "well_formed c \<Longrightarrow> i < length (c_iterator c) \<Longrightarrow> offsets c ! i = c_iterator c ! i - c_begin c ! i"
  by (simp add: offsets_def well_formed_def)

lemma sizes_nth:
  "well_formed c \<Longrightarrow> i < length (c_iterator c) \<Longrightarrow> sizes c ! i = c_end c ! i - c_begin c ! i"
  by (simp add: sizes_def well_formed_def)

lemma take_offsets_cong:
  assumes "well_formed c" "well_formed c'" "length (c_iterator c') = length (c_iterator c)"
    and "\<forall>i<I. c_iterator c' ! i - c_begin c' ! i = c_iterator c ! i - c_begin c ! i"
    and "I \<le> length (c_iterator c)"
  shows "take I (offsets c') = take I (offsets c)"
  using assms by (simp add: list_eq_iff_nth_eq length_offsets offsets_nth)

lemma next_I_no_carry:
  "i < length (c_iterator c) \<Longrightarrow> c_iterator c ! i + 1 \<noteq> c_end c ! i \<Longrightarrow>
   next_I (Suc i) c = incr_dim i c"
  by simp

lemma next_I_carry:
  "i < length (c_iterator c) \<Longrightarrow> c_iterator c ! i + 1 = c_end c ! i \<Longrightarrow> i \<noteq> 0 \<Longrightarrow>
   next_I (Suc i) c = next_I i (set_dim i (c_begin c ! i) (incr_dim i c))"
  by simp

lemma next_I_last_carry:
  "next_I (Suc 0) c = incr_dim 0 c"
  by simp

lemma carried_digits_snoc_valid:
  "valid_digits ds ss \<Longrightarrow> 0 \<le> d \<Longrightarrow> d < s \<Longrightarrow> carried_digits (ds @ [d]) (ss @ [s])"
  using valid_digits_length[of ds ss]
  by (cases "ds = []") (simp_all add: carried_digits_snoc valid_imp_carried valid_digits_def)

lemma next_I_rank:
  assumes "well_formed c" "0 < I" "I \<le> length (c_iterator c)"
    and "valid_digits (take I (offsets c)) (take I (sizes c))"
  shows "carried_digits (take I (offsets (next_I I c))) (take I (sizes c)) \<and>
     mrank (take I (offsets (next_I I c))) (take I (sizes c)) =
       mrank (take I (offsets c)) (take I (sizes c)) + 1"
  using assms
proof (induction I arbitrary: c)
  case 0
  then show ?case by simp
next
  case (Suc I)
  let ?d = "offsets c ! I" and ?s = "sizes c ! I"
  let ?D = "take I (offsets c)" and ?S = "take I (sizes c)"
  have I: "I < length (c_iterator c)" using Suc.prems by simp
  have lo: "length (offsets c) = length (c_iterator c)"
    and ls: "length (sizes c) = length (c_iterator c)"
    using Suc.prems by (simp_all add: length_offsets length_sizes)
  have tD: "take (Suc I) (offsets c) = ?D @ [?d]"
    and tS: "take (Suc I) (sizes c) = ?S @ [?s]"
    using I lo ls by (simp_all add: take_Suc_conv_app_nth)
  have len: "length ?D = length ?S" "length ?D = I"
    using I lo ls by simp_all
  have v: "valid_digits ?D ?S" "0 \<le> ?d" "?d < ?s"
    using Suc.prems(4) len by (simp_all add: tD tS valid_digits_snoc)
  have d: "?d = c_iterator c ! I - c_begin c ! I" and s: "?s = c_end c ! I - c_begin c ! I"
    using Suc.prems(1) I by (simp_all add: offsets_nth sizes_nth)
  have m: "mrank (?D @ [?d]) (?S @ [?s]) = mrank ?D ?S * ?s + ?d"
    using len by (simp add: mrank_snoc)
  let ?c1 = "incr_dim I c"
  have wf1: "well_formed ?c1" using Suc.prems(1) by (simp add: well_formed_def)
  have o1: "take (Suc I) (offsets ?c1) = ?D @ [?d + 1]"
  proof -
    have "take I (offsets ?c1) = ?D"
      using Suc.prems(1) wf1 I by (intro take_offsets_cong) simp_all
    moreover have "offsets ?c1 ! I = ?d + 1"
      using wf1 I d by (simp add: offsets_nth)
    ultimately show ?thesis
      using I wf1 by (simp add: take_Suc_conv_app_nth length_offsets)
  qed
  have m1: "mrank (?D @ [?d + 1]) (?S @ [?s]) = mrank ?D ?S * ?s + ?d + 1"
    using len by (simp add: mrank_snoc)
  show ?case
  proof (cases "c_iterator c ! I + 1 = c_end c ! I")
    case False
    have n: "next_I (Suc I) c = ?c1" using I False by (rule next_I_no_carry)
    have "?d + 1 < ?s" using False v d s by simp
    then have "carried_digits (?D @ [?d + 1]) (?S @ [?s])"
      using v by (intro carried_digits_snoc_valid) simp_all
    then show ?thesis
      unfolding n o1 tD tS m m1 by simp
  next
    case True
    then have ds: "?d + 1 = ?s" using d s by simp
    show ?thesis
    proof (cases "I = 0")
      case True
      have n: "next_I (Suc I) c = ?c1" unfolding True by (rule next_I_last_carry)
      have e: "?D = []" "?S = []" using True by simp_all
      have "carried_digits (?D @ [?d + 1]) (?S @ [?s])"
        unfolding e using v ds by (simp add: valid_digits_def)
      then show ?thesis
        unfolding n o1 tD tS m m1 by simp
    next
      case False
      let ?c2 = "set_dim I (c_begin c ! I) ?c1"
      let ?r = "next_I I ?c2"
      have n: "next_I (Suc I) c = ?r"
        using I True False by (rule next_I_carry)
      have wf2: "well_formed ?c2" using Suc.prems(1) by (simp add: well_formed_def)
      have sz2: "sizes ?c2 = sizes c" by (simp add: sizes_def)
      have o2: "take I (offsets ?c2) = ?D"
        using Suc.prems(1) wf2 I by (intro take_offsets_cong) simp_all
      have ih: "carried_digits (take I (offsets ?r)) ?S \<and>
                mrank (take I (offsets ?r)) ?S = mrank ?D ?S + 1"
        using Suc.IH[of ?c2] wf2 False I v(1) by (simp add: sz2 o2)
      have wfr: "well_formed ?r" using wf2 by (rule well_formed_next_I)
      have lr: "length (c_iterator ?r) = length (c_iterator c)"
        using next_I_frame[of I ?c2] by simp
      have "offsets ?r ! I = 0"
        using next_I_frame[of I ?c2] wfr lr I by (simp add: offsets_nth)
      then have tr: "take (Suc I) (offsets ?r) = take I (offsets ?r) @ [0]"
        using I wfr lr by (simp add: take_Suc_conv_app_nth length_offsets)
      have lor: "length (offsets ?r) = length (c_iterator c)"
        using wfr lr by (simp add: length_offsets)
      have lenr: "length (take I (offsets ?r)) = length ?S" "take I (offsets ?r) \<noteq> []"
        using I lor ls False by auto
      have c: "carried_digits (take I (offsets ?r) @ [0]) (?S @ [?s])"
        using ih lenr v by (simp add: carried_digits_snoc)
      have mr: "mrank (take I (offsets ?r) @ [0]) (?S @ [?s]) = (mrank ?D ?S + 1) * ?s"
        using ih lenr by (simp add: mrank_snoc)
      show ?thesis
        unfolding n tr tS tD m mr using c ds by (simp add: algebra_simps)
    qed
  qed
qed

lemma length_concat_uniform:
  "\<forall>ys \<in> set yss. length ys = m \<Longrightarrow> length (concat yss) = length yss * m"
  by (induction yss) simp_all

lemma nth_concat_uniform:
  "\<forall>ys \<in> set yss. length ys = m \<Longrightarrow> i < length yss \<Longrightarrow> j < m \<Longrightarrow>
   concat yss ! (i * m + j) = yss ! i ! j"
proof (induction yss arbitrary: i)
  case Nil
  then show ?case by simp
next
  case (Cons ys yss)
  show ?case
  proof (cases i)
    case 0
    then show ?thesis using Cons.prems by (simp add: nth_append)
  next
    case (Suc i')
    then have "concat (ys # yss) ! (i * m + j) = concat yss ! (i' * m + j)"
      using Cons.prems by (simp add: nth_append)
    then show ?thesis
      using Cons.IH[of i'] Cons.prems Suc by simp
  qed
qed

lemma length_product_lists_prod:
  "length (product_lists xss) = prod_list (map length xss)"
proof (induction xss)
  case Nil
  then show ?case by simp
next
  case (Cons xs xss)
  have "length (concat (map (\<lambda>x. map ((#) x) (product_lists xss)) xs)) =
        length (map (\<lambda>x. map ((#) x) (product_lists xss)) xs) * length (product_lists xss)"
    by (rule length_concat_uniform) auto
  then show ?case using Cons.IH by simp
qed

lemma nth_product_lists_Cons:
  assumes "i < length xs" "j < length (product_lists xss)"
  shows "product_lists (xs # xss) ! (i * length (product_lists xss) + j) =
         xs ! i # product_lists xss ! j"
proof -
  have "concat (map (\<lambda>x. map ((#) x) (product_lists xss)) xs) ! (i * length (product_lists xss) + j) =
        map (\<lambda>x. map ((#) x) (product_lists xss)) xs ! i ! j"
    using assms by (intro nth_concat_uniform) auto
  then show ?thesis using assms by simp
qed

lemma ranges_length:
  "length bs = length es \<Longrightarrow> \<forall>i < length bs. bs ! i \<le> es ! i \<Longrightarrow>
   int (prod_list (map length (map2 (\<lambda>b e. [b..e - 1]) bs es))) =
     prod_list (map2 (\<lambda>e b. e - b) es bs)"
proof (induction bs es rule: list_induct2)
  case Nil
  then show ?case by simp
next
  case (Cons b bs e es)
  have "\<forall>i < length bs. bs ! i \<le> es ! i"
  proof (intro allI impI)
    fix i assume "i < length bs"
    then have "Suc i < length (b # bs)" by simp
    from Cons.prems[rule_format, OF this] show "bs ! i \<le> es ! i" by simp
  qed
  then have ih: "int (prod_list (map length (map2 (\<lambda>b e. [b..e - 1]) bs es))) =
     prod_list (map2 (\<lambda>e b. e - b) es bs)"
    by (rule Cons.IH)
  have "b \<le> e" using Cons.prems[rule_format, of 0] by simp
  then have "int (length [b..e - 1]) = e - b" by simp
  then show ?case using ih by (simp del: length_upto)
qed

lemma nth_product_lists_rank:
  assumes "length bs = length es" "length es = length it"
    and "\<forall>i < length it. bs ! i \<le> it ! i \<and> it ! i < es ! i"
  shows "product_lists (map2 (\<lambda>b e. [b..e - 1]) bs es) !
           nat (mrank (map2 (\<lambda>x b. x - b) it bs) (map2 (\<lambda>e b. e - b) es bs)) = it"
  using assms
proof (induction bs es it rule: list_induct3)
  case Nil
  then show ?case by simp
next
  case (Cons b bs e es x it)
  let ?R = "map2 (\<lambda>b e. [b..e - 1]) bs es"
  let ?D = "map2 (\<lambda>x b. x - b) it bs" and ?S = "map2 (\<lambda>e b. e - b) es bs"
  let ?L = "length (product_lists ?R)"
  have rest: "\<forall>i < length it. bs ! i \<le> it ! i \<and> it ! i < es ! i"
  proof (intro allI impI)
    fix i assume "i < length it"
    then have "Suc i < length (x # it)" by simp
    from Cons.prems[rule_format, OF this] show "bs ! i \<le> it ! i \<and> it ! i < es ! i" by simp
  qed
  have hd: "b \<le> x" "x < e" using Cons.prems[rule_format, of 0] by simp_all
  have v: "valid_digits ?D ?S"
    using rest Cons.hyps by (simp add: valid_digits_def list_all2_conv_all_nth)
  have le: "\<forall>i < length bs. bs ! i \<le> es ! i"
  proof (intro allI impI)
    fix i assume "i < length bs"
    then have "i < length it" using Cons.hyps by simp
    from rest[rule_format, OF this] show "bs ! i \<le> es ! i" by simp
  qed
  have p: "int ?L = prod_list ?S"
    using ranges_length[OF Cons.hyps(1) le] by (simp only: length_product_lists_prod)
  have mb: "0 \<le> mrank ?D ?S" "mrank ?D ?S < prod_list ?S"
    using mrank_bounds[OF v] by simp_all
  have "nat ((x - b) * prod_list ?S + mrank ?D ?S) = nat ((x - b) * int ?L) + nat (mrank ?D ?S)"
    using hd mb by (simp only: p[symmetric] nat_add_distrib) (simp add: nat_add_distrib)
  also have "nat ((x - b) * int ?L) = nat (x - b) * ?L"
    using hd by (simp add: nat_mult_distrib)
  finally have idx: "nat ((x - b) * prod_list ?S + mrank ?D ?S) =
             nat (x - b) * ?L + nat (mrank ?D ?S)" .
  have j: "nat (mrank ?D ?S) < ?L"
    using mb p by linarith
  have i: "nat (x - b) < length [b..e - 1]"
    using hd by simp
  have "product_lists ([b..e - 1] # ?R) ! (nat (x - b) * ?L + nat (mrank ?D ?S)) =
        [b..e - 1] ! nat (x - b) # product_lists ?R ! nat (mrank ?D ?S)"
    using i j by (rule nth_product_lists_Cons)
  moreover have "[b..e - 1] ! nat (x - b) = x"
    using hd by simp
  moreover have "product_lists ?R ! nat (mrank ?D ?S) = it"
    using Cons.IH[OF rest] .
  moreover have "mrank (map2 (\<lambda>x b. x - b) (x # it) (b # bs)) (map2 (\<lambda>e b. e - b) (e # es) (b # bs)) =
       (x - b) * prod_list ?S + mrank ?D ?S"
    by simp
  moreover have "map2 (\<lambda>b e. [b..e - 1]) (b # bs) (e # es) = [b..e - 1] # ?R"
    by simp
  ultimately show ?case
    by (simp only: idx)
qed

lemma carried_digits_cases:
  assumes "carried_digits ds ss" "ds \<noteq> []"
  shows "(mrank ds ss < prod_list ss \<longrightarrow> valid_digits ds ss) \<and>
         (prod_list ss \<le> mrank ds ss \<longrightarrow> hd ds = hd ss)"
proof (cases ds)
  case Nil
  then show ?thesis using assms by simp
next
  case (Cons d ds')
  then obtain s ss' where ss: "ss = s # ss'"
    using assms by (cases ss) auto
  have c: "0 \<le> d" "d \<le> s" "valid_digits ds' ss'"
    using assms Cons ss by simp_all
  have p: "0 < prod_list ss'" using c(3) by (rule valid_digits_pos)
  have m: "0 \<le> mrank ds' ss'" "mrank ds' ss' < prod_list ss'"
    using mrank_bounds[OF c(3)] by simp_all
  have a: "d < s" if "d * prod_list ss' + mrank ds' ss' < s * prod_list ss'"
  proof (rule ccontr)
    assume "\<not> d < s"
    then have "s * prod_list ss' \<le> d * prod_list ss'"
      using p by (intro mult_right_mono) simp_all
    with that m show False by simp
  qed
  have b: "d = s" if "s * prod_list ss' \<le> d * prod_list ss' + mrank ds' ss'"
  proof (rule ccontr)
    assume "d \<noteq> s"
    then have "d + 1 \<le> s" using c by simp
    then have "(d + 1) * prod_list ss' \<le> s * prod_list ss'"
      using p by (intro mult_right_mono) simp_all
    with that m show False by (simp add: algebra_simps)
  qed
  show ?thesis
    using a b c by (auto simp add: Cons ss valid_digits_def)
qed

lemma mrank_zero: "\<forall>d \<in> set ds. d = 0 \<Longrightarrow> mrank ds ss = 0"
proof (induction ds arbitrary: ss)
  case Nil
  then show ?case by simp
next
  case (Cons d ds)
  then show ?case by (cases ss) simp_all
qed

lemma valid_digits_in_range:
  assumes "well_formed c" "valid_digits (offsets c) (sizes c)" "i < length (c_iterator c)"
  shows "c_begin c ! i \<le> c_iterator c ! i \<and> c_iterator c ! i < c_end c ! i"
proof -
  have "0 \<le> offsets c ! i \<and> offsets c ! i < sizes c ! i"
    using assms by (simp add: valid_digits_def list_all2_conv_all_nth length_offsets)
  then show ?thesis
    using assms by (simp add: offsets_nth sizes_nth)
qed

lemma valid_digits_not_end:
  assumes "well_formed c" "valid_digits (offsets c) (sizes c)" "0 < length (c_iterator c)"
  shows "c_iterator c ! 0 \<noteq> c_end c ! 0"
  using valid_digits_in_range[OF assms(1,2), of 0] assms(3) by simp

lemma checkEnd_fields [simp]:
  "c_begin (checkEnd c) = c_begin c" "c_end (checkEnd c) = c_end c"
  by (simp_all add: checkEnd_def)

lemma increment_step:
  assumes "well_formed c" "0 < length (c_iterator c)" "valid_digits (offsets c) (sizes c)"
  shows "well_formed (increment c) \<and> c_begin (increment c) = c_begin c \<and>
     c_end (increment c) = c_end c \<and>
     (if mrank (offsets c) (sizes c) + 1 < prod_list (sizes c)
      then valid_digits (offsets (increment c)) (sizes c) \<and>
           mrank (offsets (increment c)) (sizes c) = mrank (offsets c) (sizes c) + 1
      else c_iterator (increment c) = c_end c)"
proof -
  let ?N = "length (c_iterator c)"
  let ?r = "next_I ?N c"
  have fr: "c_begin ?r = c_begin c" "c_end ?r = c_end c" "length (c_iterator ?r) = ?N"
    using next_I_frame[of ?N c] by simp_all
  have wfr: "well_formed ?r" using assms(1) by (rule well_formed_next_I)
  have sz: "sizes ?r = sizes c" by (rule sizes_next_I)
  have t: "take ?N (offsets c) = offsets c" "take ?N (sizes c) = sizes c"
    "take ?N (offsets ?r) = offsets ?r"
    using assms(1) wfr fr by (simp_all add: length_offsets length_sizes)
  have rk: "carried_digits (offsets ?r) (sizes c)"
    "mrank (offsets ?r) (sizes c) = mrank (offsets c) (sizes c) + 1"
    using next_I_rank[of c ?N] assms by (simp_all add: t)
  have ne: "offsets ?r \<noteq> []" "sizes c \<noteq> []"
    using wfr fr assms(1,2) length_offsets[of ?r] length_sizes[of c] by auto
  have h: "hd (offsets ?r) = c_iterator ?r ! 0 - c_begin c ! 0"
    "hd (sizes c) = c_end c ! 0 - c_begin c ! 0"
    using ne wfr fr assms(1,2) by (simp_all add: hd_conv_nth offsets_nth sizes_nth)
  have le: "mrank (offsets c) (sizes c) < prod_list (sizes c)"
    using mrank_bounds[OF assms(3)] by simp
  show ?thesis
  proof (cases "mrank (offsets c) (sizes c) + 1 < prod_list (sizes c)")
    case True
    then have v: "valid_digits (offsets ?r) (sizes c)"
      using carried_digits_cases[OF rk(1) ne(1)] rk(2) by simp
    then have "c_iterator ?r ! 0 \<noteq> c_end ?r ! 0"
      using valid_digits_not_end[of ?r] wfr fr assms(2) sz by simp
    then have "increment c = ?r"
      by (simp add: increment_def checkEnd_def)
    then show ?thesis
      using True v rk(2) wfr fr by simp
  next
    case False
    then have "prod_list (sizes c) \<le> mrank (offsets ?r) (sizes c)"
      using le rk(2) by simp
    then have "hd (offsets ?r) = hd (sizes c)"
      using carried_digits_cases[OF rk(1) ne(1)] by simp
    then have "c_iterator ?r ! 0 = c_end ?r ! 0"
      using h fr by simp
    then have "increment c = ?r\<lparr>c_iterator := c_end ?r\<rparr>"
      by (simp add: increment_def checkEnd_def)
    then show ?thesis
      using False fr assms(1) by (simp add: well_formed_def)
  qed
qed

lemma first_combination_fields [simp]:
  "c_begin (first_combination bs es) = bs" "c_iterator (first_combination bs es) = bs"
  "c_end (first_combination bs es) = es"
  by (simp_all add: first_combination_def CartesianProductIterator_ctor_def)

lemma empty_dimension_iff:
  "length bs = length es \<Longrightarrow> empty_dimension bs es \<longleftrightarrow> (\<exists>i < length bs. bs ! i = es ! i)"
  by (auto simp add: empty_dimension_def list_ex_iff set_zip)

lemma product_begin_nonempty:
  assumes "length bs = length es" "\<forall>i < length bs. bs ! i < es ! i"
  shows "product_begin bs es = first_combination bs es"
proof -
  have "\<not> empty_dimension bs es"
  proof
    assume "empty_dimension bs es"
    then obtain i where "i < length bs" "bs ! i = es ! i"
      using empty_dimension_iff[OF assms(1)] by blast
    with assms(2) show False by fastforce
  qed
  then show ?thesis by (simp add: product_begin_def)
qed

lemma product_begin_empty:
  assumes "length bs = length es" "\<exists>i < length bs. bs ! i = es ! i"
  shows "product_begin bs es = product_end bs es"
  using assms empty_dimension_iff[OF assms(1)] by (simp add: product_begin_def)

lemma product_end_fields [simp]:
  "c_begin (product_end bs es) = bs" "c_iterator (product_end bs es) = es"
  "c_end (product_end bs es) = es"
  by (simp_all add: product_end_def CartesianProductIterator_ctor_def)

lemma first_combination_valid:
  assumes "length bs = length es" "\<forall>i < length bs. bs ! i < es ! i"
  shows "well_formed (first_combination bs es) \<and>
     valid_digits (offsets (first_combination bs es)) (sizes (first_combination bs es)) \<and>
     mrank (offsets (first_combination bs es)) (sizes (first_combination bs es)) = 0"
proof -
  have "mrank (offsets (first_combination bs es)) (sizes (first_combination bs es)) = 0"
    by (rule mrank_zero) (auto simp add: offsets_def set_zip)
  then show ?thesis
    using assms
    by (simp add: well_formed_def valid_digits_def list_all2_conv_all_nth offsets_def sizes_def)
qed

lemma increment_funpow:
  assumes "length bs = length es" "0 < length bs" "\<forall>i < length bs. bs ! i < es ! i"
    and "int k < prod_list (map2 (\<lambda>e b. e - b) es bs)"
  shows "well_formed ((increment ^^ k) (first_combination bs es)) \<and>
     c_begin ((increment ^^ k) (first_combination bs es)) = bs \<and>
     c_end ((increment ^^ k) (first_combination bs es)) = es \<and>
     length (c_iterator ((increment ^^ k) (first_combination bs es))) = length bs \<and>
     valid_digits (offsets ((increment ^^ k) (first_combination bs es))) (map2 (\<lambda>e b. e - b) es bs) \<and>
     mrank (offsets ((increment ^^ k) (first_combination bs es))) (map2 (\<lambda>e b. e - b) es bs) = int k"
  using assms(4)
proof (induction k)
  case 0
  show ?case
    using first_combination_valid[OF assms(1,3)] by (simp add: sizes_def)
next
  case (Suc k)
  let ?c = "(increment ^^ k) (first_combination bs es)"
  let ?S = "map2 (\<lambda>e b. e - b) es bs"
  have ih: "well_formed ?c" "c_begin ?c = bs" "c_end ?c = es" "length (c_iterator ?c) = length bs"
    "valid_digits (offsets ?c) ?S" "mrank (offsets ?c) ?S = int k"
    using Suc by simp_all
  have sz: "sizes ?c = ?S" using ih by (simp add: sizes_def)
  have lt: "mrank (offsets ?c) (sizes ?c) + 1 < prod_list (sizes ?c)"
    using Suc.prems ih(6) sz by simp
  have st: "well_formed (increment ?c)" "c_begin (increment ?c) = bs" "c_end (increment ?c) = es"
    "valid_digits (offsets (increment ?c)) ?S" "mrank (offsets (increment ?c)) ?S = int k + 1"
    using increment_step[of ?c] ih assms(2) lt sz by simp_all
  have "length (c_iterator (increment ?c)) = length bs"
    using st(1,2) by (simp add: well_formed_def)
  then show ?case
    using st by simp
qed

lemma increment_funpow_last:
  assumes "length bs = length es" "0 < length bs" "\<forall>i < length bs. bs ! i < es ! i"
  shows "c_iterator ((increment ^^ nat (prod_list (map2 (\<lambda>e b. e - b) es bs))) (first_combination bs es)) = es"
proof -
  let ?S = "map2 (\<lambda>e b. e - b) es bs"
  have v: "valid_digits (offsets (first_combination bs es)) ?S"
    using first_combination_valid[OF assms(1,3)] by (simp add: sizes_def)
  have pos: "0 < prod_list ?S" using v by (rule valid_digits_pos)
  then obtain k where k: "nat (prod_list ?S) = Suc k" by (cases "nat (prod_list ?S)") auto
  then have kl: "int k < prod_list ?S" and ke: "int k + 1 = prod_list ?S" by linarith+
  let ?c = "(increment ^^ k) (first_combination bs es)"
  have ih: "well_formed ?c" "c_begin ?c = bs" "c_end ?c = es" "length (c_iterator ?c) = length bs"
    "valid_digits (offsets ?c) ?S" "mrank (offsets ?c) ?S = int k"
    using increment_funpow[OF assms kl] by simp_all
  have sz: "sizes ?c = ?S" using ih by (simp add: sizes_def)
  have "c_iterator (increment ?c) = c_end ?c"
    using increment_step[of ?c] ih assms(2) ke sz by simp
  then show ?thesis
    using ih(3) by (simp add: k)
qed

lemma increment_funpow_nth:
  assumes "length bs = length es" "0 < length bs" "\<forall>i < length bs. bs ! i < es ! i"
    and "int k < prod_list (map2 (\<lambda>e b. e - b) es bs)"
  shows "c_iterator ((increment ^^ k) (first_combination bs es)) =
           product_lists (map2 (\<lambda>b e. [b..e - 1]) bs es) ! k \<and>
         \<not> eq ((increment ^^ k) (first_combination bs es)) (product_end bs es)"
proof -
  let ?c = "(increment ^^ k) (first_combination bs es)"
  let ?S = "map2 (\<lambda>e b. e - b) es bs"
  have ih: "well_formed ?c" "c_begin ?c = bs" "c_end ?c = es" "length (c_iterator ?c) = length bs"
    "valid_digits (offsets ?c) ?S" "mrank (offsets ?c) ?S = int k"
    using increment_funpow[OF assms] by simp_all
  have sz: "sizes ?c = ?S" using ih by (simp add: sizes_def)
  have rng: "\<forall>i < length (c_iterator ?c). bs ! i \<le> c_iterator ?c ! i \<and> c_iterator ?c ! i < es ! i"
    using valid_digits_in_range[of ?c] ih sz by simp
  have o: "offsets ?c = map2 (\<lambda>x b. x - b) (c_iterator ?c) bs"
    using ih(2) by (simp add: offsets_def)
  have "product_lists (map2 (\<lambda>b e. [b..e - 1]) bs es) !
           nat (mrank (map2 (\<lambda>x b. x - b) (c_iterator ?c) bs) ?S) = c_iterator ?c"
    using assms(1) ih(4) rng by (intro nth_product_lists_rank) simp_all
  then have a: "c_iterator ?c = product_lists (map2 (\<lambda>b e. [b..e - 1]) bs es) ! k"
    using ih(6) o by simp
  have "c_iterator ?c ! 0 \<noteq> c_end ?c ! 0"
    using valid_digits_not_end[of ?c] ih assms(2) sz by simp
  then have "\<not> eq ?c (product_end bs es)"
    using ih(3) by (auto simp add: eq_def)
  with a show ?thesis by simp
qed

lemma visit_funpow:
  assumes "\<forall>k < n. \<not> eq ((increment ^^ k) c) e" "eq ((increment ^^ n) c) e"
  shows "visit c e = Some (map (\<lambda>k. c_iterator ((increment ^^ k) c)) [0..<n])"
  using assms
proof (induction n arbitrary: c)
  case 0
  then show ?case by (subst visit.simps) simp
next
  case (Suc n)
  have ne: "\<not> eq c e" using Suc.prems(1)[rule_format, of 0] by simp
  have a: "\<forall>k < n. \<not> eq ((increment ^^ k) (increment c)) e"
  proof (intro allI impI)
    fix k assume "k < n"
    then have "Suc k < Suc n" by simp
    from Suc.prems(1)[rule_format, OF this] show "\<not> eq ((increment ^^ k) (increment c)) e"
      by (simp add: funpow_swap1)
  qed
  have b: "eq ((increment ^^ n) (increment c)) e"
    using Suc.prems(2) by (simp add: funpow_swap1)
  have ih: "visit (increment c) e =
      Some (map (\<lambda>k. c_iterator ((increment ^^ k) (increment c))) [0..<n])"
    using Suc.IH[OF a b] .
  have m: "map (\<lambda>k. c_iterator ((increment ^^ k) c)) [0..<Suc n] =
        c_iterator c # map (\<lambda>k. c_iterator ((increment ^^ k) (increment c))) [0..<n]"
    by (simp add: upt_conv_Cons map_Suc_upt[symmetric] funpow_swap1 del: upt_Suc)
  show ?case
    using ne ih by (subst visit.simps) (simp only: m, simp)
qed

lemma example_hyp: "\<forall>i < length [0, 0 :: int]. [0, 0 :: int] ! i < [2, 3] ! i"
  by (simp add: less_Suc_eq)

lemma example_sizes: "prod_list (map2 (\<lambda>e b. e - b) [2, 3] [0, 0 :: int]) = 6"
  by simp

section \<open>Traversal of the cartesian product\<close>

lemma sorted_wrt_product_Cons:
  assumes "sorted_wrt (<) (xs :: int list)"
    and "sorted_wrt (\<lambda>x y. (x, y) \<in> lexord {(a, b). a < b}) yss"
  shows "sorted_wrt (\<lambda>x y. (x, y) \<in> lexord {(a, b). a < b})
           (concat (map (\<lambda>x. map ((#) x) yss) xs))"
  using assms(1)
proof (induction xs)
  case Nil
  then show ?case by simp
next
  case (Cons x xs)
  have "sorted_wrt (\<lambda>u v. (u, v) \<in> lexord {(a, b). a < b}) (map ((#) x) yss)"
    using assms(2) by (simp add: sorted_wrt_map)
  then show ?case
    using Cons by (auto simp add: sorted_wrt_append)
qed

lemma sorted_wrt_product_lists:
  "\<forall>xs \<in> set xss. sorted_wrt (<) (xs :: int list) \<Longrightarrow>
   sorted_wrt (\<lambda>x y. (x, y) \<in> lexord {(a, b). a < b}) (product_lists xss)"
proof (induction xss)
  case Nil
  then show ?case by simp
next
  case (Cons xs xss)
  then show ?case
    using sorted_wrt_product_Cons[of xs "product_lists xss"] by simp
qed

lemma sorted_wrt_upto: "sorted_wrt (<) [i..j]"
proof -
  have "sorted [i..j]" "distinct [i..j]" by simp_all
  then show ?thesis by (simp add: strict_sorted_iff)
qed

lemma ranges_sorted:
  "\<forall>xs \<in> set (map2 (\<lambda>b e. [b..e - 1]) bs es). sorted_wrt (<) xs"
  by (auto simp add: set_zip sorted_wrt_upto)

lemma ranges_distinct:
  "\<forall>xs \<in> set (map2 (\<lambda>b e. [b..e - 1]) bs es). distinct xs"
  by (auto simp add: set_zip)

text \<open>
  C2: for \<open>N \<ge> 2\<close> sequences, all non-empty, the consumer's loop from the begin cursor
  ends and visits exactly the tuples of positions of the product, in the order of
  \<open>product_lists\<close> (dimension 0 slowest, dimension \<open>N - 1\<close> fastest): as many as the
  product of the sizes, pairwise distinct, strictly increasing in the lexicographic order.
  The \<open>k\<close>-th increment of the begin cursor stands on the \<open>k\<close>-th tuple and is not the
  end cursor; one increment after the last tuple the cursor equals the end cursor.
\<close>

theorem C2_product_visits_lexicographic:
  assumes "2 \<le> length begins" "length begins = length ends"
    and "\<forall>i < length begins. begins ! i < ends ! i"
  shows "visit (product_begin begins ends) (product_end begins ends) =
       Some (product_lists (map2 (\<lambda>b e. [b..e - 1]) begins ends)) \<and>
     int (length (product_lists (map2 (\<lambda>b e. [b..e - 1]) begins ends))) =
       prod_list (map2 (\<lambda>e b. e - b) ends begins) \<and>
     distinct (product_lists (map2 (\<lambda>b e. [b..e - 1]) begins ends)) \<and>
     sorted_wrt (\<lambda>x y. (x, y) \<in> lexord {(a, b). a < b})
       (product_lists (map2 (\<lambda>b e. [b..e - 1]) begins ends)) \<and>
     (\<forall>k < length (product_lists (map2 (\<lambda>b e. [b..e - 1]) begins ends)).
        c_iterator ((increment ^^ k) (product_begin begins ends)) =
          product_lists (map2 (\<lambda>b e. [b..e - 1]) begins ends) ! k \<and>
        \<not> eq ((increment ^^ k) (product_begin begins ends)) (product_end begins ends)) \<and>
     eq ((increment ^^ length (product_lists (map2 (\<lambda>b e. [b..e - 1]) begins ends)))
           (product_begin begins ends))
        (product_end begins ends)"
proof -
  have pb: "product_begin begins ends = first_combination begins ends"
    using assms(2,3) by (rule product_begin_nonempty)
  let ?R = "map2 (\<lambda>b e. [b..e - 1]) begins ends"
  let ?S = "map2 (\<lambda>e b. e - b) ends begins"
  let ?B = "first_combination begins ends" and ?E = "product_end begins ends"
  let ?n = "length (product_lists ?R)"
  have pos: "0 < length begins" using assms(1) by linarith
  have le: "\<forall>i < length begins. begins ! i \<le> ends ! i"
    using assms(3) by (simp add: less_imp_le)
  have len: "int ?n = prod_list ?S"
    using ranges_length[OF assms(2) le] by (simp only: length_product_lists_prod)
  have nth: "c_iterator ((increment ^^ k) ?B) = product_lists ?R ! k \<and> \<not> eq ((increment ^^ k) ?B) ?E"
    if "k < ?n" for k
  proof -
    have "int k < prod_list ?S" using that len by linarith
    then show ?thesis by (rule increment_funpow_nth[OF assms(2) pos assms(3)])
  qed
  have "c_iterator ((increment ^^ nat (prod_list ?S)) ?B) = ends"
    by (rule increment_funpow_last[OF assms(2) pos assms(3)])
  moreover have "nat (prod_list ?S) = ?n" using len by linarith
  ultimately have last: "eq ((increment ^^ ?n) ?B) ?E"
    by (simp add: eq_def)
  have ne: "\<forall>k < ?n. \<not> eq ((increment ^^ k) ?B) ?E"
    using nth by blast
  have vf: "visit ?B ?E = Some (map (\<lambda>k. c_iterator ((increment ^^ k) ?B)) [0..<?n])"
    using ne last by (rule visit_funpow)
  have "map (\<lambda>k. c_iterator ((increment ^^ k) ?B)) [0..<?n] = product_lists ?R"
  proof (rule nth_equalityI)
    show "length (map (\<lambda>k. c_iterator ((increment ^^ k) ?B)) [0..<?n]) = ?n" by simp
  next
    fix i assume "i < length (map (\<lambda>k. c_iterator ((increment ^^ k) ?B)) [0..<?n])"
    then have i: "i < ?n" by simp
    then have "map (\<lambda>k. c_iterator ((increment ^^ k) ?B)) [0..<?n] ! i =
               c_iterator ((increment ^^ i) ?B)"
      by (simp del: product_lists.simps)
    then show "map (\<lambda>k. c_iterator ((increment ^^ k) ?B)) [0..<?n] ! i = product_lists ?R ! i"
      using nth[OF i] by (simp only:)
  qed
  with vf have v: "visit ?B ?E = Some (product_lists ?R)" by (simp only:)
  have d: "distinct (product_lists ?R)"
    using ranges_distinct by (rule distinct_product_lists)
  have s: "sorted_wrt (\<lambda>x y. (x, y) \<in> lexord {(a, b). a < b}) (product_lists ?R)"
    using ranges_sorted by (rule sorted_wrt_product_lists)
  have all: "\<forall>k < ?n. c_iterator ((increment ^^ k) ?B) = product_lists ?R ! k \<and>
                 \<not> eq ((increment ^^ k) ?B) ?E"
    using nth by blast
  from v len d s all last show ?thesis
    unfolding pb by (intro conjI)
qed

theorem C2_product_visits_lexicographic_witness:
  "visit (product_begin [0, 0] [2, 3]) (product_end [0, 0] [2, 3]) =
     Some [[0, 0], [0, 1], [0, 2], [1, 0], [1, 1], [1, 2]] \<and>
   eq ((increment ^^ 6) (product_begin [0, 0] [2, 3])) (product_end [0, 0] [2, 3])"
proof -
  have l: "2 \<le> length [0, 0 :: int]" "length [0, 0 :: int] = length [2, 3 :: int]" by simp_all
  have r: "product_lists (map2 (\<lambda>b e. [b..e - 1]) [0, 0] [2, 3 :: int]) =
           [[0, 0], [0, 1], [0, 2], [1, 0], [1, 1], [1, 2]]"
    by code_simp
  from C2_product_visits_lexicographic[OF l example_hyp]
  show ?thesis unfolding r by (simp add: eval_nat_numeral)
qed

section \<open>Signed jumps and distances of the cartesian product\<close>

lemma sdiv_nonneg: "0 \<le> k \<Longrightarrow> 0 < l \<Longrightarrow> k sdiv l = k div (l::int)"
  by (simp add: signed_divide_int_def sgn_if)

lemma smod_nonneg: "0 \<le> k \<Longrightarrow> 0 < l \<Longrightarrow> k smod l = k mod (l::int)"
  by (simp add: signed_modulo_int_def sgn_if)


lemma jumped_digits_snoc:
  "length ds = length ss \<Longrightarrow> ds \<noteq> [] \<Longrightarrow>
   jumped_digits (ds @ [d]) (ss @ [s]) \<longleftrightarrow> jumped_digits ds ss \<and> 0 \<le> d \<and> d < s"
  by (cases ds; cases ss) (auto simp add: valid_digits_snoc)

lemma jumped_imp_carried:
  assumes "jumped_digits ds ss" "mrank ds ss \<le> prod_list ss"
  shows "carried_digits ds ss"
proof (cases ds)
  case Nil
  then show ?thesis using assms by simp
next
  case (Cons d ds')
  then obtain s ss' where ss: "ss = s # ss'"
    using assms by (cases ss) auto
  have c: "0 \<le> d" "valid_digits ds' ss'"
    using assms Cons ss by simp_all
  have p: "0 < prod_list ss'" using c(2) by (rule valid_digits_pos)
  have m: "0 \<le> mrank ds' ss'" "mrank ds' ss' < prod_list ss'"
    using mrank_bounds[OF c(2)] by simp_all
  have "d \<le> s"
  proof (rule ccontr)
    assume "\<not> d \<le> s"
    then have "s + 1 \<le> d" by simp
    then have "(s + 1) * prod_list ss' \<le> d * prod_list ss'"
      using p by (intro mult_right_mono) simp_all
    with assms(2) m p show False by (simp add: Cons ss algebra_simps)
  qed
  then show ?thesis using c by (simp add: Cons ss)
qed

lemma operatorPlusImpl_frame:
  "operatorPlusImpl I offset c = Inr c' \<Longrightarrow>
   c_begin c' = c_begin c \<and> c_end c' = c_end c \<and>
   length (c_iterator c') = length (c_iterator c) \<and>
   (\<forall>i. I < i \<longrightarrow> c_iterator c' ! i = c_iterator c ! i)"
proof (induction I arbitrary: offset c)
  case 0
  then show ?case by auto
next
  case (Suc I)
  let ?dist = "dist_dim (Suc I) offset c"
  let ?w = "wrap_dim (Suc I) offset c"
  let ?c2 = "set_dim (Suc I) (c_iterator ?w ! Suc I + offset smod ?dist) ?w"
  have w: "c_begin ?w = c_begin c" "c_end ?w = c_end c"
    "length (c_iterator ?w) = length (c_iterator c)"
    "\<forall>i. Suc I < i \<longrightarrow> c_iterator ?w ! i = c_iterator c ! i"
    by (simp_all add: wrap_dim_def)
  have r: "operatorPlusImpl I (offset sdiv ?dist) ?c2 = Inr c'"
    using Suc.prems by (simp split: if_splits)
  from Suc.IH[OF r] w show ?case by simp
qed

lemma operatorPlusImpl_from_begin:
  assumes "well_formed c" "I < length (c_iterator c)" "0 \<le> offset"
    and "\<forall>i \<le> I. c_iterator c ! i = c_begin c ! i"
    and "\<forall>i. 0 < i \<and> i \<le> I \<longrightarrow> c_begin c ! i < c_end c ! i"
  shows "\<exists>c'. operatorPlusImpl I offset c = Inr c' \<and>
     jumped_digits (take (Suc I) (offsets c')) (take (Suc I) (sizes c)) \<and>
     mrank (take (Suc I) (offsets c')) (take (Suc I) (sizes c)) = offset"
  using assms
proof (induction I arbitrary: offset c)
  case 0
  let ?c' = "set_dim 0 (c_iterator c ! 0 + offset) c"
  have wf': "well_formed ?c'" using "0.prems"(1) by (simp add: well_formed_def)
  have "offsets ?c' ! 0 = offset"
    using wf' "0.prems" by (simp add: offsets_nth)
  then have t: "take (Suc 0) (offsets ?c') = [offset]"
    using wf' "0.prems"(2) length_offsets[OF wf'] by (simp add: take_Suc_conv_app_nth)
  have ts: "take (Suc 0) (sizes c) = [sizes c ! 0]"
    using "0.prems"(1,2) length_sizes[of c] by (simp add: take_Suc_conv_app_nth)
  show ?case
    using "0.prems"(3) by (simp add: t ts valid_digits_def)
next
  case (Suc I)
  let ?b = "c_begin c ! Suc I" and ?e = "c_end c ! Suc I"
  let ?s = "?e - ?b"
  have I: "Suc I < length (c_iterator c)" using Suc.prems by simp
  have at: "c_iterator c ! Suc I = ?b" using Suc.prems(4) by simp
  have s: "0 < ?s" using Suc.prems(5)[rule_format, of "Suc I"] by simp
  have dist: "dist_dim (Suc I) offset c = ?s"
    using Suc.prems(3) at by (simp add: dist_dim_def)
  have wrap: "wrap_dim (Suc I) offset c = c"
    using Suc.prems(3) by (simp add: wrap_dim_def)
  let ?c2 = "set_dim (Suc I) (?b + offset mod ?s) c"
  have step: "operatorPlusImpl (Suc I) offset c = operatorPlusImpl I (offset div ?s) ?c2"
    using s Suc.prems(3) at by (simp add: dist wrap sdiv_nonneg smod_nonneg)
  have wf2: "well_formed ?c2" using Suc.prems(1) by (simp add: well_formed_def)
  have sz2: "sizes ?c2 = sizes c" by (simp add: sizes_def)
  have q: "0 \<le> offset div ?s" using Suc.prems(3) s by (simp add: pos_imp_zdiv_nonneg_iff)
  have "\<exists>c'. operatorPlusImpl I (offset div ?s) ?c2 = Inr c' \<and>
     jumped_digits (take (Suc I) (offsets c')) (take (Suc I) (sizes ?c2)) \<and>
     mrank (take (Suc I) (offsets c')) (take (Suc I) (sizes ?c2)) = offset div ?s"
    using wf2 I q Suc.prems(4,5) by (intro Suc.IH) simp_all
  then obtain c' where
    r: "operatorPlusImpl I (offset div ?s) ?c2 = Inr c'"
       "jumped_digits (take (Suc I) (offsets c')) (take (Suc I) (sizes c))"
       "mrank (take (Suc I) (offsets c')) (take (Suc I) (sizes c)) = offset div ?s"
    unfolding sz2 by blast
  have fr: "c_begin c' = c_begin c" "c_end c' = c_end c"
    "length (c_iterator c') = length (c_iterator c)"
    "c_iterator c' ! Suc I = ?b + offset mod ?s"
    using operatorPlusImpl_frame[OF r(1)] I by simp_all
  have wf': "well_formed c'" using fr Suc.prems(1) by (simp add: well_formed_def)
  have lo: "length (offsets c') = length (c_iterator c)"
    and ls: "length (sizes c) = length (c_iterator c)"
    using wf' fr Suc.prems(1) by (simp_all add: length_offsets length_sizes)
  have "offsets c' ! Suc I = offset mod ?s"
    using wf' fr I by (simp add: offsets_nth)
  then have to: "take (Suc (Suc I)) (offsets c') = take (Suc I) (offsets c') @ [offset mod ?s]"
    using I lo by (simp add: take_Suc_conv_app_nth)
  have "sizes c ! Suc I = ?s"
    using Suc.prems(1) I by (simp add: sizes_nth)
  then have ts: "take (Suc (Suc I)) (sizes c) = take (Suc I) (sizes c) @ [?s]"
    using I ls by (simp add: take_Suc_conv_app_nth)
  have len: "length (take (Suc I) (offsets c')) = length (take (Suc I) (sizes c))"
    "take (Suc I) (offsets c') \<noteq> []"
    using I lo ls by auto
  have md: "0 \<le> offset mod ?s" "offset mod ?s < ?s"
    using s by simp_all
  have j: "jumped_digits (take (Suc I) (offsets c') @ [offset mod ?s]) (take (Suc I) (sizes c) @ [?s])"
    using r(2) len md by (simp add: jumped_digits_snoc)
  have "mrank (take (Suc I) (offsets c') @ [offset mod ?s]) (take (Suc I) (sizes c) @ [?s]) =
          offset div ?s * ?s + offset mod ?s"
    unfolding mrank_snoc[OF len(1)] r(3) ..
  also have "\<dots> = offset" by (rule div_mult_mod_eq)
  finally have m: "mrank (take (Suc I) (offsets c') @ [offset mod ?s]) (take (Suc I) (sizes c) @ [?s]) = offset" .
  have "operatorPlusImpl (Suc I) offset c = Inr c'"
    using step r(1) by (simp only:)
  moreover
  have "jumped_digits (take (Suc (Suc I)) (offsets c')) (take (Suc (Suc I)) (sizes c))"
    unfolding to ts by (rule j)
  moreover
  have "mrank (take (Suc (Suc I)) (offsets c')) (take (Suc (Suc I)) (sizes c)) = offset"
    unfolding to ts by (rule m)
  ultimately show ?case by blast
qed






lemma plusIs_from_begin:
  assumes "length bs = length es" "0 < length bs" "\<forall>i < length bs. bs ! i < es ! i"
    and "0 \<le> k" "k \<le> prod_list (map2 (\<lambda>e b. e - b) es bs)"
  shows "plusIs k (first_combination bs es) = Inr ((increment ^^ nat k) (first_combination bs es))"
proof -
  let ?B = "first_combination bs es"
  let ?S = "map2 (\<lambda>e b. e - b) es bs"
  let ?N = "length bs"
  have wfB: "well_formed ?B" using assms(1) by (simp add: well_formed_def)
  have szB: "sizes ?B = ?S" by (simp add: sizes_def)
  have pos: "\<forall>i. 0 < i \<and> i \<le> ?N - 1 \<longrightarrow> c_begin ?B ! i < c_end ?B ! i"
  proof (intro allI impI)
    fix i assume "0 < i \<and> i \<le> ?N - 1"
    then have "i < ?N" using assms(2) by linarith
    then show "c_begin ?B ! i < c_end ?B ! i" using assms(3) by simp
  qed
  have "\<exists>c'. operatorPlusImpl (?N - 1) k ?B = Inr c' \<and>
     jumped_digits (take (Suc (?N - 1)) (offsets c')) (take (Suc (?N - 1)) (sizes ?B)) \<and>
     mrank (take (Suc (?N - 1)) (offsets c')) (take (Suc (?N - 1)) (sizes ?B)) = k"
    using wfB assms(2,4) pos by (intro operatorPlusImpl_from_begin) simp_all
  then obtain c' where
    r: "operatorPlusImpl (?N - 1) k ?B = Inr c'"
       "jumped_digits (take (Suc (?N - 1)) (offsets c')) (take (Suc (?N - 1)) ?S)"
       "mrank (take (Suc (?N - 1)) (offsets c')) (take (Suc (?N - 1)) ?S) = k"
    unfolding szB by blast
  have fr: "c_begin c' = bs" "c_end c' = es" "length (c_iterator c') = ?N"
    using operatorPlusImpl_frame[OF r(1)] by simp_all
  have wf': "well_formed c'" using fr assms(1) by (simp add: well_formed_def)
  have sz': "sizes c' = ?S" using fr by (simp add: sizes_def)
  have t: "take (Suc (?N - 1)) (offsets c') = offsets c'" "take (Suc (?N - 1)) ?S = ?S"
    using assms(1,2) fr length_offsets[OF wf'] by simp_all
  have j: "jumped_digits (offsets c') ?S" and m: "mrank (offsets c') ?S = k"
    using r(2,3) unfolding t by simp_all
  have c: "carried_digits (offsets c') ?S"
    using j assms(5) m by (intro jumped_imp_carried) simp_all
  have ne: "offsets c' \<noteq> []"
    using length_offsets[OF wf'] fr assms(2) by auto
  have p: "plusIs k ?B = Inr (checkEnd c')"
    using r(1) by (simp add: plusIs_def)
  have sne: "?S \<noteq> []" "?S ! 0 = es ! 0 - bs ! 0"
    using assms(1,2) by auto
  have h: "hd (offsets c') = c_iterator c' ! 0 - bs ! 0" "hd ?S = es ! 0 - bs ! 0"
    using ne sne wf' fr assms(1,2) offsets_nth[OF wf', of 0] by (simp_all add: hd_conv_nth)
  show ?thesis
  proof (cases "k < prod_list ?S")
    case True
    then have v: "valid_digits (offsets c') ?S"
      using carried_digits_cases[OF c ne] m by simp
    have "c_iterator c' ! 0 \<noteq> c_end c' ! 0"
      using valid_digits_not_end[of c'] wf' v sz' fr assms(2) by simp
    then have ce: "checkEnd c' = c'" by (simp add: checkEnd_def)
    have rng: "\<forall>i < length (c_iterator c'). bs ! i \<le> c_iterator c' ! i \<and> c_iterator c' ! i < es ! i"
      using valid_digits_in_range[of c'] wf' v sz' fr by simp
    have o: "offsets c' = map2 (\<lambda>x b. x - b) (c_iterator c') bs"
      using fr by (simp add: offsets_def)
    have "product_lists (map2 (\<lambda>b e. [b..e - 1]) bs es) !
             nat (mrank (map2 (\<lambda>x b. x - b) (c_iterator c') bs) ?S) = c_iterator c'"
      using assms(1) fr(3) rng by (intro nth_product_lists_rank) simp_all
    then have a: "c_iterator c' = product_lists (map2 (\<lambda>b e. [b..e - 1]) bs es) ! nat k"
      using m o by simp
    have kk: "int (nat k) < prod_list ?S" using True assms(4) by simp
    have b: "c_iterator ((increment ^^ nat k) ?B) = product_lists (map2 (\<lambda>b e. [b..e - 1]) bs es) ! nat k"
      using increment_funpow_nth[OF assms(1,2,3) kk] by simp
    have f: "c_begin ((increment ^^ nat k) ?B) = bs" "c_end ((increment ^^ nat k) ?B) = es"
      using increment_funpow[OF assms(1,2,3) kk] by simp_all
    have "c' = (increment ^^ nat k) ?B"
      using a b f fr by (intro CartesianProductIterator.equality) simp_all
    then show ?thesis using p ce by simp
  next
    case False
    then have ke: "k = prod_list ?S" using assms(5) by simp
    then have "hd (offsets c') = hd ?S"
      using carried_digits_cases[OF c ne] m by simp
    then have "c_iterator c' ! 0 = c_end c' ! 0" using h fr by simp
    then have ce: "checkEnd c' = c'\<lparr>c_iterator := es\<rparr>"
      using fr by (simp add: checkEnd_def)
    have pos: "0 < prod_list ?S"
      using first_combination_valid[OF assms(1,3)] valid_digits_pos[of "offsets ?B" ?S]
      by (simp add: sizes_def)
    then obtain n where n: "nat k = Suc n" using ke by (cases "nat k") auto
    then have nl: "int n < prod_list ?S" using ke by linarith
    let ?c = "(increment ^^ n) ?B"
    have f: "c_begin ?c = bs" "c_end ?c = es" "well_formed ?c"
      "valid_digits (offsets ?c) ?S" "length (c_iterator ?c) = length bs"
      using increment_funpow[OF assms(1,2,3) nl] by simp_all
    have szc: "sizes ?c = ?S" using f by (simp add: sizes_def)
    have g: "c_begin (increment ?c) = bs" "c_end (increment ?c) = es"
      using increment_step[of ?c] f assms(2) szc by simp_all
    have l: "c_iterator ((increment ^^ nat k) ?B) = es"
      using increment_funpow_last[OF assms(1,2,3)] ke by simp
    have "c'\<lparr>c_iterator := es\<rparr> = (increment ^^ nat k) ?B"
      using l g fr by (intro CartesianProductIterator.equality) (simp_all add: n)
    then show ?thesis using p ce by simp
  qed
qed

lemma increment_fields [simp]:
  "c_begin (increment c) = c_begin c" "c_end (increment c) = c_end c"
  using next_I_frame[of "length (c_iterator c)" c] by (simp_all add: increment_def)

lemma increment_funpow_fields [simp]:
  "c_begin ((increment ^^ n) c) = c_begin c" "c_end ((increment ^^ n) c) = c_end c"
  by (induction n) simp_all

lemma increment_at_end:
  "c_iterator (increment c) ! 0 = c_end c ! 0 \<Longrightarrow> c_iterator (increment c) = c_end c"
proof -
  let ?r = "next_I (length (c_iterator c)) c"
  assume a: "c_iterator (increment c) ! 0 = c_end c ! 0"
  have e: "c_end ?r = c_end c" using next_I_frame[of "length (c_iterator c)" c] by simp
  show ?thesis
  proof (cases "c_iterator ?r ! 0 = c_end ?r ! 0")
    case True
    then show ?thesis using e by (simp add: increment_def checkEnd_def)
  next
    case False
    then have "increment c = ?r" by (simp add: increment_def checkEnd_def)
    with a False e show ?thesis by simp
  qed
qed

lemma plusIs_at_end:
  assumes "plusIs n c = Inr c'" "c_iterator c' ! 0 = c_end c ! 0"
  shows "c_iterator c' = c_end c"
proof -
  from assms(1) obtain r where
    r: "operatorPlusImpl (length (c_iterator c) - 1) n c = Inr r" "c' = checkEnd r"
    by (auto simp add: plusIs_def split: sum.splits)
  have e: "c_end r = c_end c" using operatorPlusImpl_frame[OF r(1)] by simp
  show ?thesis
  proof (cases "c_iterator r ! 0 = c_end r ! 0")
    case True
    then show ?thesis using e r(2) by (simp add: checkEnd_def)
  next
    case False
    then have "c' = r" using r(2) by (simp add: checkEnd_def)
    with assms(2) False e show ?thesis by simp
  qed
qed

lemma last_combination_rank:
  "list_all2 (<) bs es \<Longrightarrow>
   valid_digits (map2 (\<lambda>x b. x - b) (map (\<lambda>e. e - 1) es) bs) (map2 (\<lambda>e b. e - b) es bs) \<and>
   mrank (map2 (\<lambda>x b. x - b) (map (\<lambda>e. e - 1) es) bs) (map2 (\<lambda>e b. e - b) es bs) =
     prod_list (map2 (\<lambda>e b. e - b) es bs) - 1"
proof (induction bs es rule: list_all2_induct)
  case Nil
  then show ?case by (simp add: valid_digits_def)
next
  case (Cons b bs e es)
  then show ?case by (simp add: valid_digits_def algebra_simps)
qed

lemma increment_last_combination:
  assumes "length bs = length es" "0 < length bs" "\<forall>i < length bs. bs ! i < es ! i"
  shows "c_iterator (increment (CartesianProductIterator_ctor (map (\<lambda>e. e - 1) es) bs es)) = es"
proof -
  let ?L = "CartesianProductIterator_ctor (map (\<lambda>e. e - 1) es) bs es"
  let ?S = "map2 (\<lambda>e b. e - b) es bs"
  have l2: "list_all2 (<) bs es"
    using assms(1,3) by (simp add: list_all2_conv_all_nth)
  have f: "c_begin ?L = bs" "c_end ?L = es" "c_iterator ?L = map (\<lambda>e. e - 1) es"
    by (simp_all add: CartesianProductIterator_ctor_def)
  have wf: "well_formed ?L" using assms(1) f by (simp add: well_formed_def)
  have o: "offsets ?L = map2 (\<lambda>x b. x - b) (map (\<lambda>e. e - 1) es) bs" and s: "sizes ?L = ?S"
    using f by (simp_all add: offsets_def sizes_def)
  have v: "valid_digits (offsets ?L) (sizes ?L)"
    and m: "mrank (offsets ?L) (sizes ?L) = prod_list (sizes ?L) - 1"
    using last_combination_rank[OF l2] unfolding o s by simp_all
  have "0 < length (c_iterator ?L)" using assms(1,2) f by simp
  from increment_step[OF wf this v] m f show ?thesis by simp
qed

text \<open>
  C3, as the claim states it, fails: incrementing the last combination \<open>(1, 2)\<close> of a
  product of sizes 2 and 3 leaves dimension 0 at its end, and dimension 1 at its end 3 as
  well, not at its begin 0.
\<close>

theorem C3_higher_dimensions_counterexample:
  "c_iterator (increment (CartesianProductIterator_ctor [1, 2] [0, 0] [2, 3])) ! 0 = 2 \<and>
   c_end (increment (CartesianProductIterator_ctor [1, 2] [0, 0] [2, 3])) ! 0 = 2 \<and>
   c_iterator (increment (CartesianProductIterator_ctor [1, 2] [0, 0] [2, 3])) ! 1 = 3 \<and>
   c_begin (increment (CartesianProductIterator_ctor [1, 2] [0, 0] [2, 3])) ! 1 = 0"
  by code_simp

text \<open>
  C3, amended: for \<open>N \<ge> 2\<close> non-empty sequences, incrementing the last valid
  combination, incrementing the begin cursor as many times as there are combinations, and
  jumping from the begin cursor by that number all give the cursor whose tuple \<open>_iterator\<close>
  is the tuple \<open>_end\<close>: every dimension stands at its end. This encoding is the only
  one: whenever the result of an increment or of a jump has dimension 0 at its end, its
  whole tuple is \<open>_end\<close>.
\<close>

theorem C3_exhausted_state_is_end_tuple:
  assumes "2 \<le> length begins" "length begins = length ends"
    and "\<forall>i < length begins. begins ! i < ends ! i"
  shows "c_iterator (increment (CartesianProductIterator_ctor (map (\<lambda>e. e - 1) ends) begins ends)) = ends \<and>
     c_iterator ((increment ^^ nat (prod_list (map2 (\<lambda>e b. e - b) ends begins)))
                   (product_begin begins ends)) = ends \<and>
     plusIs (prod_list (map2 (\<lambda>e b. e - b) ends begins)) (product_begin begins ends) =
       Inr (product_end begins ends) \<and>
     (\<forall>c. c_iterator (increment c) ! 0 = c_end c ! 0 \<longrightarrow> c_iterator (increment c) = c_end c) \<and>
     (\<forall>c n c'. plusIs n c = Inr c' \<and> c_iterator c' ! 0 = c_end c ! 0 \<longrightarrow> c_iterator c' = c_end c)"
proof -
  have pb: "product_begin begins ends = first_combination begins ends"
    using assms(2,3) by (rule product_begin_nonempty)
  let ?S = "map2 (\<lambda>e b. e - b) ends begins"
  let ?B = "first_combination begins ends"
  have pos: "0 < length begins" using assms(1) by linarith
  have a: "c_iterator (increment (CartesianProductIterator_ctor (map (\<lambda>e. e - 1) ends) begins ends)) = ends"
    by (rule increment_last_combination[OF assms(2) pos assms(3)])
  have b: "c_iterator ((increment ^^ nat (prod_list ?S)) ?B) = ends"
    by (rule increment_funpow_last[OF assms(2) pos assms(3)])
  have p: "0 \<le> prod_list ?S"
    using first_combination_valid[OF assms(2,3)] valid_digits_pos[of "offsets ?B" ?S]
    by (simp add: sizes_def)
  have "plusIs (prod_list ?S) ?B = Inr ((increment ^^ nat (prod_list ?S)) ?B)"
    using plusIs_from_begin[OF assms(2) pos assms(3) p] by simp
  moreover have "(increment ^^ nat (prod_list ?S)) ?B = product_end begins ends"
    using b by (intro CartesianProductIterator.equality) simp_all
  ultimately have c: "plusIs (prod_list ?S) ?B = Inr (product_end begins ends)" by simp
  show ?thesis
    unfolding pb using a b c increment_at_end plusIs_at_end by blast
qed

theorem C3_exhausted_state_is_end_tuple_witness:
  "c_iterator (increment (CartesianProductIterator_ctor [1, 2] [0, 0] [2, 3])) = [2, 3] \<and>
   c_iterator ((increment ^^ 6) (product_begin [0, 0] [2, 3])) = [2, 3] \<and>
   plusIs 6 (product_begin [0, 0] [2, 3]) = Inr (product_end [0, 0] [2, 3])"
proof -
  have l: "2 \<le> length [0, 0 :: int]" "length [0, 0 :: int] = length [2, 3 :: int]" by simp_all
  from C3_exhausted_state_is_end_tuple[OF l example_hyp]
  show ?thesis unfolding example_sizes by simp
qed




lemma distance_wraps:
  "difference (product_end [0, 0] [2 ^ 32, 2 ^ 32]) (product_begin [0, 0] [2 ^ 32, 2 ^ 32]) = 0"
  by (simp add: difference_def distanceImpl_def difference_type_def product_begin_def
        product_end_def first_combination_def empty_dimension_def CartesianProductIterator_ctor_def
        signed_take_bit_eq_take_bit_shift take_bit_eq_mod)



section \<open>Construction of the cartesian product\<close>

text \<open>
  C5: for \<open>N \<ge> 2\<close> sequences of which at least one is empty, the begin cursor that
  construction produces is the end cursor: the two compare equal and the consumer's loop
  visits nothing. Construction works on positions alone; no element is read.
\<close>

theorem C5_empty_dimension_begin_is_end:
  assumes "2 \<le> length begins" "length begins = length ends"
    and "\<exists>i < length begins. begins ! i = ends ! i"
  shows "product_begin begins ends = product_end begins ends \<and>
     eq (product_begin begins ends) (product_end begins ends) \<and>
     visit (product_begin begins ends) (product_end begins ends) = Some []"
proof -
  have b: "product_begin begins ends = product_end begins ends"
    using assms(2,3) by (rule product_begin_empty)
  have e: "eq (product_end begins ends) (product_end begins ends)"
    by (simp add: eq_def)
  then have "visit (product_end begins ends) (product_end begins ends) = Some []"
    by (subst visit.simps) simp
  with b e show ?thesis by simp
qed

theorem C5_empty_dimension_begin_is_end_witness:
  "product_begin [0, 0] [2, 0] = product_end [0, 0] [2, 0] \<and>
   eq (product_begin [0, 0] [2, 0]) (product_end [0, 0] [2, 0]) \<and>
   visit (product_begin [0, 0] [2, 0]) (product_end [0, 0] [2, 0]) = Some []"
proof -
  have l: "2 \<le> length [0, 0 :: int]" "length [0, 0 :: int] = length [2, 0 :: int]" by simp_all
  have h: "\<exists>i < length [0, 0 :: int]. [0, 0 :: int] ! i = [2, 0] ! i"
    by (rule exI[of _ 1]) simp
  from C5_empty_dimension_begin_is_end[OF l h] show ?thesis .
qed

end
